theory Spec2Isabelle
  imports Main "HOL-Library.Sublist"
begin

section \<open>Strings as the script uses them\<close>

text \<open>
  A JavaScript string is modelled as a \<^typ>\<open>string\<close>: a list of code units, here the
  code units below 256. \<open>String.prototype.trim\<close> strips white space and line
  terminators from both ends; among the code units below 256 these are tab, line feed,
  vertical tab, form feed, carriage return, space and no-break space.
\<close>

definition isWhiteSpace :: "char \<Rightarrow> bool" where
  "isWhiteSpace c =
     (c = CHR 0x09 \<or> c = CHR 0x0A \<or> c = CHR 0x0B \<or> c = CHR 0x0C \<or> c = CHR 0x0D \<or>
      c = CHR 0x20 \<or> c = CHR 0xA0)"

definition trim :: "string \<Rightarrow> string" where
  "trim s = rev (dropWhile isWhiteSpace (rev (dropWhile isWhiteSpace s)))"

text \<open>\<open>Array.prototype.join\<close>: the elements with the separator between neighbours.\<close>

fun join :: "string \<Rightarrow> string list \<Rightarrow> string" where
  "join sep [] = []"
| "join sep [x] = x"
| "join sep (x # y # ys) = x @ sep @ join sep (y # ys)"

text \<open>
  \<open>String.prototype.split\<close> with a string separator and no limit: the text is cut at
  every occurrence of the separator, scanning from the left, and an occurrence is
  consumed whole. \<open>splitFrom sep acc s\<close> scans \<open>s\<close> with the characters of the current
  part collected (reversed) in \<open>acc\<close>. With the empty separator the result is the list
  of code units.
\<close>

function splitFrom :: "string \<Rightarrow> string \<Rightarrow> string \<Rightarrow> string list" where
  "splitFrom sep acc [] = [rev acc]"
| "splitFrom sep acc (c # cs) =
     (if sep \<noteq> [] \<and> prefix sep (c # cs)
      then rev acc # splitFrom sep [] (drop (length sep) (c # cs))
      else splitFrom sep (c # acc) cs)"
  by pat_completeness auto
termination
  by (relation "measure (\<lambda>(sep, acc, s). length s)") (auto simp: neq_Nil_conv)

definition split :: "string \<Rightarrow> string \<Rightarrow> string list" where
  "split s sep = (if sep = [] then map (\<lambda>c. [c]) s else splitFrom sep [] s)"

text \<open>
  A number in a template literal (\<open>`${difficulty}:${text}`\<close>) is rendered in decimal,
  with a leading minus sign when negative (the notation of every integer below
  \<open>10^21\<close> in magnitude, which covers the levels 1 to 10 of the slider).
\<close>

definition digitChar :: "nat \<Rightarrow> char" where
  "digitChar n = char_of (48 + n)"

fun digits :: "nat \<Rightarrow> string" where
  "digits n = (if n < 10 then [digitChar n] else digits (n div 10) @ [digitChar (n mod 10)])"

declare digits.simps [simp del]

definition numberToString :: "int \<Rightarrow> string" where
  "numberToString i = (if i < 0 then CHR ''-'' # digits (nat (- i)) else digits (nat i))"

section \<open>The translation cache and client (\<open>translateText\<close>)\<close>

text \<open>
  A thrown \<open>Error\<close> is a value carrying its message. The world a run acts on holds the
  module-level \<open>translationCache\<close> (a \<open>Map\<close> from key to translation), the number of
  reads of the stored credential made so far, the prompts sent to the remote service so
  far (one entry per \<open>fetch\<close>), and the notices shown to the user by
  \<open>showNotification\<close>. Console output is diagnostic and is not part of the world.
\<close>

datatype js_error = Error (message: string)

record world =
  translationCache :: "string \<rightharpoonup> string"
  storageReads :: nat
  fetchCalls :: "string list"
  notifications :: "string list"

text \<open>
  What lies outside the script answers through an environment: \<open>apiKeyAt k\<close> is what
  the \<open>k\<close>-th read of \<open>chrome.storage.sync.get('apiKey')\<close> yields (\<open>None\<close> when no key
  is stored), and \<open>fetchAt k key prompt\<close> is the outcome of the \<open>k\<close>-th \<open>fetch\<close>. A
  \<open>fetch\<close> either rejects, or resolves to a response with its \<open>ok\<close> flag and a body.
  The body is unreadable (\<open>response.json()\<close> rejects, or the parsed value is \<open>null\<close> so
  that reading a property of it throws), or it is data with the optional
  \<open>data.error.message\<close> and with \<open>data.choices[0].message.content\<close>, which is either a
  string or missing (then evaluating \<open>.trim()\<close> on it throws the given error).
\<close>

datatype completion = Content string | Missing js_error

datatype body = Unreadable js_error | Data "string option" completion

datatype fetched = Rejected js_error | Response bool body

record env =
  apiKeyAt :: "nat \<Rightarrow> string option"
  fetchAt :: "nat \<Rightarrow> string \<Rightarrow> string \<Rightarrow> fetched"

definition levelOf :: "int \<Rightarrow> int" where
  \<comment> \<open>\<open>parseInt(difficulty) || 5\<close> on a number: zero is falsy\<close>
  "levelOf difficulty = (if difficulty = 0 then 5 else difficulty)"

definition getPromptForDifficulty :: "string \<Rightarrow> int \<Rightarrow> string" where
  "getPromptForDifficulty text difficulty =
     (let level = levelOf difficulty;
          vocabulary = (if level \<le> 3 then ''A1 (basic)''
                        else if level \<le> 6 then ''A2-B1 (intermediate)'' else ''B2-C1 (advanced)'');
          grammar = (if level \<le> 3 then ''present tense only''
                     else if level \<le> 6 then ''present, past, and future''
                     else ''all tenses including subjunctive'');
          complexity = (if level \<le> 3 then ''simple sentences''
                        else if level \<le> 6 then ''compound sentences'' else ''complex sentences'');
          idioms = (if level \<le> 3 then ''no idioms''
                    else if level \<le> 6 then ''common idioms'' else ''sophisticated idioms'')
      in ''Translate the following text(s) to Spanish at '' @ vocabulary @ '' level. Use:''
         @ [CHR 0x0A, CHR 0x0A]
         @ ''- Vocabulary: '' @ vocabulary @ [CHR 0x0A]
         @ ''- Grammar: '' @ grammar @ [CHR 0x0A]
         @ ''- Sentence structure: '' @ complexity @ [CHR 0x0A]
         @ ''- Idiomatic expressions: '' @ idioms @ [CHR 0x0A]
         @ ''- Difficulty level: '' @ numberToString level @ ''/10'' @ [CHR 0x0A, CHR 0x0A]
         @ ''Maintain natural flow while keeping it at the appropriate level. ''
         @ ''If there are multiple texts separated by '' @ [CHR 0x27] @ ''---'' @ [CHR 0x27]
         @ '', translate each one separately.'' @ [CHR 0x0A, CHR 0x0A]
         @ ''Text(s) to translate: '' @ [CHR 0x22] @ text @ [CHR 0x22])"

definition cacheKey :: "int \<Rightarrow> string \<Rightarrow> string" where
  "cacheKey difficulty text = numberToString difficulty @ '':'' @ text"

definition showNotification :: "string \<Rightarrow> world \<Rightarrow> world" where
  "showNotification msg w = w\<lparr>notifications := notifications w @ [msg]\<rparr>"

text \<open>
  The body of the \<open>try\<close> block of \<open>translateText\<close>: read the credential, refuse when it
  is missing or empty, call the service, read the body, refuse a non-success response,
  and take the trimmed text of the first completion. \<open>Inl\<close> is a thrown error.
\<close>

definition keyMissing :: js_error where
  "keyMissing = Error ''OpenAI API key not configured. Please set it in the extension options.''"

definition failureMessage :: "string option \<Rightarrow> string" where
  \<comment> \<open>\<open>data.error?.message || 'Translation failed'\<close>\<close>
  "failureMessage errorMessage =
     (case errorMessage of
        None \<Rightarrow> ''Translation failed''
      | Some m \<Rightarrow> (if m = [] then ''Translation failed'' else m))"

definition readCompletion :: "bool \<Rightarrow> body \<Rightarrow> js_error + string" where
  \<comment> \<open>from \<open>await response.json()\<close> to \<open>.content.trim()\<close>\<close>
  "readCompletion ok data =
     (case data of
        Unreadable err \<Rightarrow> Inl err
      | Data errorMessage content \<Rightarrow>
          (if \<not> ok then Inl (Error (failureMessage errorMessage))
           else (case content of
                   Missing err \<Rightarrow> Inl err
                 | Content c \<Rightarrow> Inr (trim c))))"

definition requestTranslation :: "env \<Rightarrow> string \<Rightarrow> world \<Rightarrow> (js_error + string) \<times> world" where
  "requestTranslation e prompt w =
     (let apiKey = apiKeyAt e (storageReads w);
          w1 = w\<lparr>storageReads := storageReads w + 1\<rparr>
      in (case apiKey of
            None \<Rightarrow> (Inl keyMissing, w1)
          | Some k \<Rightarrow>
              (if k = [] then (Inl keyMissing, w1)
               else
                 (let response = fetchAt e (length (fetchCalls w1)) k prompt;
                      w2 = w1\<lparr>fetchCalls := fetchCalls w1 @ [prompt]\<rparr>
                  in (case response of
                        Rejected err \<Rightarrow> (Inl err, w2)
                      | Response ok data \<Rightarrow> (readCompletion ok data, w2))))))"

text \<open>
  \<open>translateText\<close>: the cache is consulted first; on a miss the request is made, a
  translation is stored under the key and returned, and any error thrown by the request
  is caught, shown to the user, and answered with the original text. The result type
  keeps the possibility of a thrown error, which the caller's \<open>try\<close> provides for.
\<close>

definition translateText :: "env \<Rightarrow> string \<Rightarrow> int \<Rightarrow> world \<Rightarrow> (js_error + string) \<times> world" where
  "translateText e text difficulty w =
     (let key = cacheKey difficulty text
      in (case translationCache w key of
            Some cached \<Rightarrow> (Inr cached, w)
          | None \<Rightarrow>
              (let prompt = getPromptForDifficulty text difficulty
               in (case requestTranslation e prompt w of
                     (Inr translatedText, w') \<Rightarrow>
                       (Inr translatedText,
                        w'\<lparr>translationCache := (translationCache w')(key \<mapsto> translatedText)\<rparr>)
                   | (Inl err, w') \<Rightarrow>
                       (Inr text, showNotification (''Translation failed: '' @ message err) w')))))"

section \<open>The batch orchestrator (the loop of \<open>translatePage\<close>)\<close>

text \<open>
  \<open>textNodes\<close> is an array of distinct live text nodes; a node is identified with its
  position in that array, and the store gives the \<open>textContent\<close> of each. The loop
  takes the slice \<open>[i, i + batchSize)\<close>, joins the trimmed texts with the separator,
  awaits the translator, splits the answer on the separator and writes part \<open>index\<close>
  to node \<open>index\<close> of the batch when that part is truthy (present and not empty). When
  the translator throws, the error is shown and the function returns. Beside the final
  texts and world the model returns the calls made to the translator, in order: the
  batch and the outcome of each.
\<close>

definition batchSize :: nat where
  "batchSize = 5"

definition separator :: string where
  "separator = [CHR 0x0A] @ ''---'' @ [CHR 0x0A]"

type_synonym translator = "string \<Rightarrow> int \<Rightarrow> world \<Rightarrow> (js_error + string) \<times> world"

datatype run_status = Completed | Aborted js_error

type_synonym run_result =
  "run_status \<times> string list \<times> world \<times> (nat list \<times> (js_error + string)) list"

definition sliceNodes :: "nat \<Rightarrow> nat \<Rightarrow> nat \<Rightarrow> nat list" where
  \<comment> \<open>\<open>textNodes.slice(i, j)\<close> on an array of \<open>n\<close> nodes\<close>
  "sliceNodes n i j = [min i n ..< min j n]"

fun updateNode :: "string list \<Rightarrow> string list \<Rightarrow> nat \<times> nat \<Rightarrow> string list" where
  \<comment> \<open>the callback of \<open>batch.forEach((node, index) => ...)\<close>\<close>
  "updateNode translatedParts store (node, index) =
     (if index < length translatedParts \<and> translatedParts ! index \<noteq> []
      then store[node := translatedParts ! index] else store)"

definition updateBatch :: "nat list \<Rightarrow> string list \<Rightarrow> string list \<Rightarrow> string list" where
  "updateBatch batch translatedParts store =
     foldl (updateNode translatedParts) store (zip batch [0 ..< length batch])"

lemma length_updateBatch [simp]: "length (updateBatch batch parts store) = length store"
proof -
  have "length (foldl (updateNode parts) st ps) = length st" for st ps
    by (induction ps arbitrary: st) auto
  then show ?thesis by (simp add: updateBatch_def)
qed

function translateBatches ::
  "translator \<Rightarrow> int \<Rightarrow> nat \<Rightarrow> string list \<Rightarrow> world \<Rightarrow> run_result" where
  "translateBatches tr difficulty i store w =
     (if i < length store then
        let batch = sliceNodes (length store) i (i + batchSize);
            batchText = join separator (map (\<lambda>node. trim (store ! node)) batch)
        in (case tr batchText difficulty w of
              (Inl err, w') \<Rightarrow>
                (Aborted err, store,
                 showNotification (''Translation error: '' @ message err) w',
                 [(batch, Inl err)])
            | (Inr translatedText, w') \<Rightarrow>
                (let translatedParts = split translatedText separator;
                     store' = updateBatch batch translatedParts store
                 in (case translateBatches tr difficulty (i + batchSize) store' w' of
                       (status, final, w'', calls) \<Rightarrow>
                         (status, final, w'', (batch, Inr translatedText) # calls))))
      else (Completed, store, w, []))"
  by pat_completeness auto
termination
  by (relation "measure (\<lambda>(tr, d, i, store, w). length store - i)")
     (auto simp: batchSize_def)

declare translateBatches.simps [simp del]

section \<open>The document tree\<close>

text \<open>
  A node is a text node or an element with its tag name (lower case, as the HTML parser
  gives it), its attributes in source order and its children. \<open>textContent\<close> is the
  concatenation of the text below a node; \<open>descendants\<close> lists the nodes below a node in
  document order (pre-order, depth first), which is the order of \<open>querySelectorAll\<close>,
  \<open>getElementsByTagName\<close> and the tree walker. Comment nodes, which carry no text
  content for an element and match no selector, are left out.
\<close>

datatype node = Text string | Element string "(string \<times> string) list" "node list"

fun isElement :: "node \<Rightarrow> bool" where
  "isElement (Text s) = False"
| "isElement (Element t as cs) = True"

fun childNodes :: "node \<Rightarrow> node list" where
  "childNodes (Text s) = []"
| "childNodes (Element t as cs) = cs"

fun textContent :: "node \<Rightarrow> string" where
  "textContent (Text s) = s"
| "textContent (Element t as cs) = concat (map textContent cs)"

fun descendants :: "node \<Rightarrow> node list" where
  "descendants (Text s) = []"
| "descendants (Element t as cs) = concat (map (\<lambda>c. c # descendants c) cs)"

text \<open>
  The selectors the script uses are simple selectors: a tag name, \<open>[attr*="v"]\<close>,
  \<open>[attr="v"]\<close>, \<open>[attr]\<close>, \<open>.class\<close> (one of the white-space separated tokens of
  the \<open>class\<close> attribute) and \<open>#id\<close>. A selector list (comma separated) matches an
  element that matches one of its members.
\<close>

fun includesStr :: "string \<Rightarrow> string \<Rightarrow> bool" where
  "includesStr [] v = (v = [])"
| "includesStr (c # cs) v = (prefix v (c # cs) \<or> includesStr cs v)"

definition isAsciiSpace :: "char \<Rightarrow> bool" where
  "isAsciiSpace c =
     (c = CHR 0x09 \<or> c = CHR 0x0A \<or> c = CHR 0x0C \<or> c = CHR 0x0D \<or> c = CHR 0x20)"

fun tokensFrom :: "string \<Rightarrow> string \<Rightarrow> string list" where
  "tokensFrom acc [] = (if acc = [] then [] else [rev acc])"
| "tokensFrom acc (c # cs) =
     (if isAsciiSpace c
      then (if acc = [] then tokensFrom [] cs else rev acc # tokensFrom [] cs)
      else tokensFrom (c # acc) cs)"

definition classList :: "string \<Rightarrow> string list" where
  "classList v = tokensFrom [] v"

datatype selector =
    Tag string
  | AttrContains string string
  | AttrEquals string string
  | HasAttr string
  | Class string
  | Id string

fun matchesSelector :: "selector \<Rightarrow> string \<Rightarrow> (string \<times> string) list \<Rightarrow> bool" where
  "matchesSelector (Tag t) tag as = (tag = t)"
| "matchesSelector (AttrContains a v) tag as =
     (case map_of as a of None \<Rightarrow> False | Some x \<Rightarrow> v \<noteq> [] \<and> includesStr x v)"
| "matchesSelector (AttrEquals a v) tag as = (map_of as a = Some v)"
| "matchesSelector (HasAttr a) tag as = (map_of as a \<noteq> None)"
| "matchesSelector (Class c) tag as =
     (case map_of as ''class'' of None \<Rightarrow> False | Some x \<Rightarrow> c \<in> set (classList x))"
| "matchesSelector (Id i) tag as = (map_of as ''id'' = Some i)"

fun matches :: "selector list \<Rightarrow> node \<Rightarrow> bool" where
  "matches sels (Text s) = False"
| "matches sels (Element t as cs) = list_ex (\<lambda>sel. matchesSelector sel t as) sels"

definition querySelectorAll :: "selector list \<Rightarrow> node \<Rightarrow> node list" where
  "querySelectorAll sels root = filter (matches sels) (descendants root)"

definition querySelector :: "selector list \<Rightarrow> node \<Rightarrow> node option" where
  "querySelector sels root = find (matches sels) (descendants root)"

text \<open>
  \<open>root.querySelectorAll(sel).forEach(el => el.remove())\<close> takes a static list of the
  matching descendants and detaches each: what remains below the root is every node that
  has no matching element on the way up to the root. The same holds for \<open>removeEmpty\<close>,
  whose test of an element reads only the element's own subtree and is made before any
  node of that subtree is visited (the list is in document order, ancestors first).
  \<open>prune P\<close> is this removal for a test \<open>P\<close> on the original subtrees.
\<close>

fun prune :: "(node \<Rightarrow> bool) \<Rightarrow> node \<Rightarrow> node" where
  "prune P (Text s) = Text s"
| "prune P (Element t as cs) = Element t as (map (prune P) (filter (\<lambda>c. \<not> P c) cs))"

definition unwantedSelectors :: "selector list" where
  "unwantedSelectors =
     [Tag ''script'', Tag ''style'', Tag ''iframe'', Tag ''noscript'', Tag ''link'', Tag ''meta'',
      AttrContains ''class'' ''ad-'', AttrContains ''id'' ''ad-'',
      AttrContains ''class'' ''advertisement'',
      Tag ''header'', Tag ''footer'',
      Class ''navigation'', Class ''nav'',
      Class ''sidebar'',
      Class ''cookie-banner'',
      Class ''newsletter-signup'',
      Class ''social-share'',
      Class ''comments'']"

definition mainSelectors :: "selector list" where
  "mainSelectors =
     [Tag ''article'',
      Tag ''main'',
      AttrEquals ''role'' ''main'',
      AttrEquals ''role'' ''article'',
      Class ''post-content'',
      Class ''entry-content'',
      Class ''article-content'',
      Class ''content'',
      Id ''content'',
      Class ''main-content'']"

definition hiddenSelectors :: "selector list" where
  "hiddenSelectors =
     [AttrContains ''style'' ''display: none'', AttrContains ''style'' ''visibility: hidden'',
      HasAttr ''hidden'']"

definition removeUnwanted :: "node \<Rightarrow> node" where
  "removeUnwanted temp = foldl (\<lambda>t selector. prune (matches [selector]) t) temp unwantedSelectors"

text \<open>
  The selection loop keeps the last match it looked at in \<open>mainContent\<close>, leaves the
  loop at the first match with more than 100 characters of trimmed text, and afterwards
  falls back to the whole container when there is no match or the match has fewer than
  100 characters.
\<close>

definition textLength :: "node \<Rightarrow> nat" where
  "textLength n = length (trim (textContent n))"

fun findMain :: "selector list \<Rightarrow> node \<Rightarrow> node option \<Rightarrow> node option" where
  "findMain [] temp mainContent = mainContent"
| "findMain (selector # rest) temp mainContent =
     (case querySelector [selector] temp of
        None \<Rightarrow> findMain rest temp None
      | Some found \<Rightarrow>
          (if textLength found > 100 then Some found else findMain rest temp (Some found)))"

definition selectMain :: "node \<Rightarrow> node" where
  "selectMain temp =
     (case findMain mainSelectors temp None of
        None \<Rightarrow> temp
      | Some mainContent \<Rightarrow> (if textLength mainContent < 100 then temp else mainContent))"

definition isEmptyElement :: "node \<Rightarrow> bool" where
  "isEmptyElement el =
     (isElement el \<and> trim (textContent el) = [] \<and> querySelector [Tag ''img''] el = None)"

definition removeEmpty :: "node \<Rightarrow> node" where
  "removeEmpty element = prune isEmptyElement element"

definition removeHidden :: "node \<Rightarrow> node" where
  "removeHidden element = prune (matches hiddenSelectors) element"

section \<open>Links\<close>

text \<open>
  The link pass of the extractor relies on three services of the browser that are not
  part of the script: the getter \<open>link.href\<close>, which resolves the text of the \<open>href\<close>
  attribute against the address of the document; the constructor \<open>new URL\<close>, which
  throws on a string that is no address; and \<open>url.toString()\<close>, which writes an address
  with its current list of query parameters. They are parameters of the model
  (\<open>browser\<close>), and every statement about the extractor holds for every browser. Of a
  parsed address the model keeps the list of its query parameters, on which
  \<open>searchParams.delete\<close> drops every pair with the given name, and what the browser
  keeps beside it: the address up to the query (\<open>base\<close>) and the fragment.
\<close>

record url =
  base :: string
  searchParams :: "(string \<times> string) list"
  fragment :: "string option"

record browser =
  resolveHref :: "string \<Rightarrow> string"
  parseURL :: "string \<Rightarrow> js_error + url"
  serializeURL :: "url \<Rightarrow> string"

definition deleteParam :: "string \<Rightarrow> url \<Rightarrow> url" where
  "deleteParam param u = u\<lparr>searchParams := filter (\<lambda>(name, v). name \<noteq> param) (searchParams u)\<rparr>"

definition paramsToRemove :: "string list" where
  "paramsToRemove = [''utm_source'', ''utm_medium'', ''utm_campaign'', ''ref'', ''source'']"

definition getHref :: "browser \<Rightarrow> (string \<times> string) list \<Rightarrow> string" where
  \<comment> \<open>\<open>link.href\<close>: the empty string without the attribute, its resolved text with it\<close>
  "getHref br as = (case map_of as ''href'' of None \<Rightarrow> [] | Some v \<Rightarrow> resolveHref br v)"

fun setAttribute :: "string \<Rightarrow> string \<Rightarrow> (string \<times> string) list \<Rightarrow> (string \<times> string) list" where
  "setAttribute name v [] = [(name, v)]"
| "setAttribute name v ((n, x) # as) =
     (if n = name then (n, v) # as else (n, x) # setAttribute name v as)"

definition stripTracking :: "url \<Rightarrow> url" where
  \<comment> \<open>\<open>paramsToRemove.forEach(param => url.searchParams.delete(param))\<close>\<close>
  "stripTracking u = foldl (\<lambda>u param. deleteParam param u) u paramsToRemove"

definition clearSearch :: "url \<Rightarrow> url" where
  \<comment> \<open>the older variant of the script: \<open>url.search = ''\<close>\<close>
  "clearSearch u = u\<lparr>searchParams := []\<rparr>"

text \<open>
  The \<open>try\<close> block of the link callback (\<open>Inl\<close> is the error \<open>new URL\<close> throws), and
  the callback with its \<open>catch\<close>, which leaves the link as it is.
\<close>

definition rewriteHref :: "browser \<Rightarrow> (string \<times> string) list \<Rightarrow> js_error + (string \<times> string) list" where
  "rewriteHref br as =
     (case parseURL br (getHref br as) of
        Inl err \<Rightarrow> Inl err
      | Inr u \<Rightarrow> Inr (setAttribute ''href'' (serializeURL br (stripTracking u)) as))"

definition cleanLink :: "browser \<Rightarrow> (string \<times> string) list \<Rightarrow> js_error + (string \<times> string) list" where
  "cleanLink br as =
     (if getHref br as \<noteq> [] then
        (case rewriteHref br as of
           Inl err \<Rightarrow> Inr as
         | Inr as' \<Rightarrow> Inr as')
      else Inr as)"

text \<open>
  The callback runs for every \<open>a\<close> element below the container, in document order; an
  error escaping a callback would leave \<open>forEach\<close> and the extractor.
\<close>

fun traverse :: "('a \<Rightarrow> js_error + 'b) \<Rightarrow> 'a list \<Rightarrow> js_error + 'b list" where
  "traverse f [] = Inr []"
| "traverse f (x # xs) =
     (case f x of
        Inl err \<Rightarrow> Inl err
      | Inr y \<Rightarrow> (case traverse f xs of Inl err \<Rightarrow> Inl err | Inr ys \<Rightarrow> Inr (y # ys)))"

lemma traverse_cong [fundef_cong]:
  "xs = ys \<Longrightarrow> (\<And>x. x \<in> set ys \<Longrightarrow> f x = g x) \<Longrightarrow> traverse f xs = traverse g ys"
  by (induction ys arbitrary: xs) (auto split: sum.splits)

fun cleanLinks :: "browser \<Rightarrow> node \<Rightarrow> js_error + node" where
  "cleanLinks br (Text s) = Inr (Text s)"
| "cleanLinks br (Element t as cs) =
     (case (if t = ''a'' then cleanLink br as else Inr as) of
        Inl err \<Rightarrow> Inl err
      | Inr as' \<Rightarrow>
          (case traverse (cleanLinks br) cs of
             Inl err \<Rightarrow> Inl err
           | Inr cs' \<Rightarrow> Inr (Element t as' cs')))"

definition cleanLinksIn :: "browser \<Rightarrow> node \<Rightarrow> js_error + node list" where
  "cleanLinksIn br container = traverse (cleanLinks br) (childNodes container)"

section \<open>Serialisation\<close>

text \<open>
  \<open>innerHTML\<close> serialises the children of an element: text is escaped (except below
  raw-text elements), an element is written with its attributes, its children and its
  end tag (none of the two last for a void element).
\<close>

definition voidElements :: "string list" where
  "voidElements = [''area'', ''base'', ''basefont'', ''bgsound'', ''br'', ''col'', ''embed'',
                   ''frame'', ''hr'', ''img'', ''input'', ''keygen'', ''link'', ''meta'',
                   ''param'', ''source'', ''track'', ''wbr'']"

definition rawTextElements :: "string list" where
  "rawTextElements = [''style'', ''script'', ''xmp'', ''iframe'', ''noembed'', ''noframes'',
                      ''plaintext'', ''noscript'']"

definition escapeChar :: "bool \<Rightarrow> char \<Rightarrow> string" where
  "escapeChar attributeMode c =
     (if c = CHR ''&'' then ''&amp;''
      else if c = CHR 0xA0 then ''&nbsp;''
      else if c = CHR ''<'' then ''&lt;''
      else if c = CHR ''>'' then ''&gt;''
      else if attributeMode \<and> c = CHR 0x22 then ''&quot;''
      else [c])"

definition escapeString :: "bool \<Rightarrow> string \<Rightarrow> string" where
  "escapeString attributeMode s = concat (map (escapeChar attributeMode) s)"

definition serializeAttribute :: "string \<times> string \<Rightarrow> string" where
  "serializeAttribute = (\<lambda>(name, v). '' '' @ name @ ''='' @ [CHR 0x22] @ escapeString True v @ [CHR 0x22])"

fun serialize :: "string \<Rightarrow> node \<Rightarrow> string" where
  "serialize parent (Text s) = (if parent \<in> set rawTextElements then s else escapeString False s)"
| "serialize parent (Element t as cs) =
     ''<'' @ t @ concat (map serializeAttribute as) @ ''>''
     @ (if t \<in> set voidElements then []
        else concat (map (serialize t) cs) @ ''</'' @ t @ ''>'')"

fun innerHTML :: "node \<Rightarrow> string" where
  "innerHTML (Text s) = []"
| "innerHTML (Element t as cs) = concat (map (serialize t) cs)"

section \<open>The content extractor (\<open>extractMainContent\<close>)\<close>

text \<open>
  \<open>extractMainContent\<close> reads \<open>document.body\<close>, which is \<open>null\<close> in a document without
  a body element (\<open>None\<close> here); \<open>cloneNode\<close> on it then throws. Otherwise the body is
  cloned into a fresh \<open>div\<close>, unwanted elements are removed, the main content is
  selected and cloned, and empty and hidden elements are removed from the clone
  (\<open>cleanedContent\<close>); then its links are cleaned (\<open>contentRegion\<close>, the container
  \<open>cleanContent\<close> at the end of the function) and its \<open>innerHTML\<close> is returned.
\<close>

fun withChildren :: "node \<Rightarrow> node list \<Rightarrow> node" where
  "withChildren (Text s) cs = Text s"
| "withChildren (Element t as old) cs = Element t as cs"

definition cleanedContent :: "node \<Rightarrow> node" where
  "cleanedContent body =
     (let temp = removeUnwanted (Element ''div'' [] [body]);
          mainContent = selectMain temp
      in removeHidden (removeEmpty mainContent))"

definition contentRegion :: "browser \<Rightarrow> node \<Rightarrow> js_error + node" where
  "contentRegion br body =
     (let cleanContent = cleanedContent body
      in (case cleanLinksIn br cleanContent of
            Inl err \<Rightarrow> Inl err
          | Inr links \<Rightarrow> Inr (withChildren cleanContent links)))"

definition nullBodyError :: "string \<Rightarrow> js_error" where
  \<comment> \<open>the error of a property read on \<open>document.body\<close> when it is \<open>null\<close>\<close>
  "nullBodyError property =
     Error (''Cannot read properties of null (reading '' @ [CHR 0x27] @ property @ [CHR 0x27] @ '')'')"

definition extractMainContent :: "browser \<Rightarrow> node option \<Rightarrow> js_error + string" where
  "extractMainContent br documentBody =
     (case documentBody of
        None \<Rightarrow> Inl (nullBodyError ''cloneNode'')
      | Some body \<Rightarrow>
          (case contentRegion br body of
             Inl err \<Rightarrow> Inl err
           | Inr region \<Rightarrow> Inr (innerHTML region)))"





section \<open>The unit partitioner (the tree walk of \<open>translatePage\<close>)\<close>

text \<open>
  The walker visits the nodes below its root in document order; \<open>walk\<close> lists them with
  their positions (the child indices from the root). With \<open>SHOW_TEXT\<close> an element is
  passed over and its children are still visited; a text node is handed to \<open>acceptNode\<close>.
  The walker's state is the list of nodes still ahead of its current node; \<open>nextNode\<close>
  moves to the next accepted node, and the loop of \<open>translatePage\<close> pushes nodes until
  \<open>nextNode\<close> returns \<open>null\<close>.
\<close>

fun walk :: "nat list \<Rightarrow> node \<Rightarrow> (nat list \<times> node) list"
  and walkList :: "nat list \<Rightarrow> nat \<Rightarrow> node list \<Rightarrow> (nat list \<times> node) list" where
  "walk p (Text s) = []"
| "walk p (Element t as cs) = walkList p 0 cs"
| "walkList p i [] = []"
| "walkList p i (c # cs) = (p @ [i], c) # walk (p @ [i]) c @ walkList p (Suc i) cs"

fun acceptNode :: "node \<Rightarrow> bool" where
  "acceptNode (Text s) = (let text = trim s in text \<noteq> [] \<and> length text > 1)"
| "acceptNode (Element t as cs) = False"

definition nextNode :: "(nat list \<times> node) list \<Rightarrow> (nat list \<times> node) option \<times> (nat list \<times> node) list" where
  "nextNode ahead =
     (case dropWhile (\<lambda>(p, n). \<not> acceptNode n) ahead of
        [] \<Rightarrow> (None, [])
      | found # rest \<Rightarrow> (Some found, rest))"

lemma nextNode_shorter:
  assumes "nextNode ahead = (Some node, ahead')"
  shows "length ahead' < length ahead"
proof -
  have "dropWhile (\<lambda>(p, n). \<not> acceptNode n) ahead = node # ahead'"
    using assms by (auto simp: nextNode_def split: list.splits)
  then have "length ahead' < length (dropWhile (\<lambda>(p, n). \<not> acceptNode n) ahead)" by simp
  also have "\<dots> \<le> length ahead" by (rule length_dropWhile_le)
  finally show ?thesis .
qed

function collectNodes :: "(nat list \<times> node) list \<Rightarrow> (nat list \<times> node) list \<Rightarrow> (nat list \<times> node) list" where
  "collectNodes ahead textNodes =
     (case nextNode ahead of
        (None, ahead') \<Rightarrow> textNodes
      | (Some node, ahead') \<Rightarrow> collectNodes ahead' (textNodes @ [node]))"
  by pat_completeness auto
termination
  by (relation "measure (\<lambda>(ahead, textNodes). length ahead)")
     (auto dest: nextNode_shorter[OF sym])

declare collectNodes.simps [simp del]

definition textNodesOf :: "node \<Rightarrow> (nat list \<times> node) list" where
  "textNodesOf reader = collectNodes (walk [] reader) []"

section \<open>Notions used in the statements\<close>

text \<open>
  \<open>partFor\<close> is the decision of the callback for one node: the part at the node's
  index when it is truthy, the node's own text otherwise.
\<close>

definition partFor :: "string list \<Rightarrow> nat \<Rightarrow> string \<Rightarrow> string" where
  "partFor translatedParts index original =
     (if index < length translatedParts \<and> translatedParts ! index \<noteq> []
      then translatedParts ! index else original)"

text \<open>
  The components of a run's result, and the slice and the composite text of the batch
  that starts at index \<open>i\<close>.
\<close>

definition runStatus :: "run_result \<Rightarrow> run_status" where
  "runStatus r = fst r"

definition finalTexts :: "run_result \<Rightarrow> string list" where
  "finalTexts r = fst (snd r)"

definition finalWorld :: "run_result \<Rightarrow> world" where
  "finalWorld r = fst (snd (snd r))"

definition translatorCalls :: "run_result \<Rightarrow> (nat list \<times> (js_error + string)) list" where
  "translatorCalls r = snd (snd (snd r))"

definition batchAt :: "string list \<Rightarrow> nat \<Rightarrow> nat list" where
  "batchAt store i = sliceNodes (length store) i (i + batchSize)"

definition batchText :: "string list \<Rightarrow> nat \<Rightarrow> string" where
  "batchText store i = join separator (map (\<lambda>node. trim (store ! node)) (batchAt store i))"

text \<open>The number a string of decimal digits stands for: the rendering read back.\<close>

definition decimalValue :: "string \<Rightarrow> nat" where
  "decimalValue s = foldl (\<lambda>a c. 10 * a + (of_char c - 48)) 0 s"

text \<open>
  The attribute a selector reads, if any; and a container all of whose children are
  elements without text and without images.
\<close>

fun selectorAttribute :: "selector \<Rightarrow> string option" where
  "selectorAttribute (Tag t) = None"
| "selectorAttribute (AttrContains a v) = Some a"
| "selectorAttribute (AttrEquals a v) = Some a"
| "selectorAttribute (HasAttr a) = Some a"
| "selectorAttribute (Class c) = Some ''class''"
| "selectorAttribute (Id i) = Some ''id''"


text \<open>
  The noise-exclusion set in the words of the specification: the listed tags, a class or
  id containing one of the listed substrings, navigation, footer and aside elements, and
  hidden elements.
\<close>

definition noiseSubstrings :: "string list" where
  "noiseSubstrings =
     [''advertisement'', ''social-share'', ''comment'', ''header-nav'', ''footer'', ''nav-bar'',
      ''menu-'', ''sidebar'', ''related'', ''newsletter'', ''popup'', ''modal'', ''cookie'',
      ''banner'', ''tracking'', ''analytics'']"

definition specNoiseSelectors :: "selector list" where
  "specNoiseSelectors =
     map Tag [''script'', ''style'', ''iframe'', ''form'', ''noscript'', ''link'', ''meta'']
     @ concat (map (\<lambda>s. [AttrContains ''class'' s, AttrContains ''id'' s]) noiseSubstrings)
     @ map Tag [''nav'', ''footer'', ''aside'']
     @ hiddenSelectors"

text \<open>
  The node at a position below a root (a list of child indices), and document order on
  positions: a node comes before the nodes below it and before the later siblings of
  itself and of its ancestors, with all that lies below them.
\<close>

fun nodeAt :: "node \<Rightarrow> nat list \<Rightarrow> node option" where
  "nodeAt n [] = Some n"
| "nodeAt (Text s) (i # p) = None"
| "nodeAt (Element t as cs) (i # p) = (if i < length cs then nodeAt (cs ! i) p else None)"

definition before :: "nat list \<Rightarrow> nat list \<Rightarrow> bool" where
  "before p q = ((p, q) \<in> lexord {(i, j). i < j})"

section \<open>Fixtures\<close>

text \<open>
  Runs of the orchestrator and the client start in a world with an empty cache. In the
  scripted environment a credential is stored and the service answers every request:
  five parts to the first request, three parts to the second, two parts to the third.
\<close>

definition emptyWorld :: world where
  "emptyWorld = \<lparr>translationCache = Map.empty, storageReads = 0, fetchCalls = [], notifications = []\<rparr>"

definition scriptedEnv :: env where
  "scriptedEnv =
     \<lparr>apiKeyAt = (\<lambda>k. Some ''sk-test''),
      fetchAt = (\<lambda>k key prompt. Response True (Data None (Content
        (if k = 0 then join separator [''a1'', ''a2'', ''a3'', ''a4'', ''a5'']
         else if k = 1 then join separator [''b1'', ''b2'', ''b3'']
         else join separator [''c1'', ''c2'']))))\<rparr>"

definition twelveUnits :: "string list" where
  "twelveUnits = [''unit 1'', ''unit 2'', ''unit 3'', ''unit 4'', ''unit 5'', ''unit 6'',
                  ''unit 7'', ''unit 8'', ''unit 9'', ''unit 10'', ''unit 11'', ''unit 12'']"

text \<open>
  A service that refuses the second request and answers the others (five parts to the
  first, two parts to the third); a service whose answer has an empty part in the
  middle; a service that always answers; and an environment in which the credential is
  missing at the first read and the service refuses the first request.
\<close>

definition refusingEnv :: env where
  "refusingEnv =
     \<lparr>apiKeyAt = (\<lambda>k. Some ''sk-test''),
      fetchAt = (\<lambda>k key prompt.
        if k = 1 then Response False (Data (Some ''API Error'') (Missing (Error ''no choices'')))
        else Response True (Data None (Content
          (if k = 0 then join separator [''a1'', ''a2'', ''a3'', ''a4'', ''a5'']
           else join separator [''c1'', ''c2'']))))\<rparr>"

text \<open>The twelve units after the answer to the first batch has been distributed.\<close>

definition afterFirstBatch :: "string list" where
  "afterFirstBatch = [''a1'', ''a2'', ''a3'', ''a4'', ''a5'', ''unit 6'', ''unit 7'', ''unit 8'',
                      ''unit 9'', ''unit 10'', ''unit 11'', ''unit 12'']"

definition gapEnv :: env where
  "gapEnv =
     \<lparr>apiKeyAt = (\<lambda>k. Some ''sk-test''),
      fetchAt = (\<lambda>k key prompt. Response True (Data None (Content
        (join separator [''uno'', [], ''tres'']))))\<rparr>"

definition threeUnits :: "string list" where
  "threeUnits = [''one'', ''two'', ''three'']"

definition steadyEnv :: env where
  "steadyEnv =
     \<lparr>apiKeyAt = (\<lambda>k. Some ''sk-test''),
      fetchAt = (\<lambda>k key prompt. Response True (Data None (Content ''  Hola mundo '')))\<rparr>"

definition flakyEnv :: env where
  "flakyEnv =
     \<lparr>apiKeyAt = (\<lambda>k. if k = 0 then None else Some ''sk-test''),
      fetchAt = (\<lambda>k key prompt.
        if k = 0 then Response False (Data (Some ''API Error'') (Missing (Error ''no choices'')))
        else Response True (Data None (Content ''Hola'')))\<rparr>"

text \<open>
  A browser for plain addresses: an absolute \<open>http\<close> or \<open>https\<close> address written without
  characters that need encoding parses into the address up to the query (with the path
  \<open>/\<close> when none is written), the list of its query parameters and its fragment; every
  other string is refused. An address is written back from these (no \<open>?\<close> when the list
  is empty), and \<open>link.href\<close> is the address written back, or the attribute's own text
  when it does not parse.
\<close>

definition afterFirst :: "char \<Rightarrow> string \<Rightarrow> string option" where
  "afterFirst c s = (case dropWhile (\<lambda>x. x \<noteq> c) s of [] \<Rightarrow> None | _ # rest \<Rightarrow> Some rest)"

definition beforeFirst :: "char \<Rightarrow> string \<Rightarrow> string" where
  "beforeFirst c s = takeWhile (\<lambda>x. x \<noteq> c) s"

definition parsePair :: "string \<Rightarrow> string \<times> string" where
  "parsePair p = (beforeFirst CHR ''='' p, case afterFirst CHR ''='' p of None \<Rightarrow> [] | Some v \<Rightarrow> v)"

definition parseQuery :: "string \<Rightarrow> (string \<times> string) list" where
  "parseQuery q = map parsePair (filter (\<lambda>p. p \<noteq> []) (split q ''&''))"

definition newURL :: "string \<Rightarrow> js_error + url" where
  "newURL s =
     (let withoutFragment = beforeFirst CHR ''#'' s;
          beforeQuery = beforeFirst CHR ''?'' withoutFragment;
          scheme = (if prefix ''https://'' beforeQuery then ''https://''
                    else if prefix ''http://'' beforeQuery then ''http://'' else []);
          rest = drop (length scheme) beforeQuery;
          host = beforeFirst CHR ''/'' rest;
          path = dropWhile (\<lambda>x. x \<noteq> CHR ''/'') rest
      in if scheme = [] \<or> host = [] then Inl (Error ''Invalid URL'')
         else Inr \<lparr>base = scheme @ host @ (if path = [] then ''/'' else path),
                   searchParams = (case afterFirst CHR ''?'' withoutFragment of
                                     None \<Rightarrow> [] | Some q \<Rightarrow> parseQuery q),
                   fragment = afterFirst CHR ''#'' s\<rparr>)"

definition serializeQuery :: "(string \<times> string) list \<Rightarrow> string" where
  "serializeQuery ps = join ''&'' (map (\<lambda>(name, v). name @ ''='' @ v) ps)"

definition urlToString :: "url \<Rightarrow> string" where
  "urlToString u =
     base u
     @ (if searchParams u = [] then [] else ''?'' @ serializeQuery (searchParams u))
     @ (case fragment u of None \<Rightarrow> [] | Some f \<Rightarrow> ''#'' @ f)"

definition plainBrowser :: browser where
  "plainBrowser =
     \<lparr>resolveHref = (\<lambda>v. case newURL v of Inl err \<Rightarrow> v | Inr u \<Rightarrow> urlToString u),
      parseURL = newURL,
      serializeURL = urlToString\<rparr>"

text \<open>
  Documents: an article with a form; an article with a hidden block, a hidden span and
  an advertisement; a hidden article; an article inside a hidden block; an article
  whose whole text is inside a hidden block; a \<open>.main-content\<close> container with \<open>k\<close>
  characters of text beside a paragraph; an article with one link that carries tracking
  parameters; a body with white space only; and a reader container with text at several
  depths.
\<close>

definition formPage :: node where
  "formPage =
     Element ''body'' []
       [Element ''article'' []
          [Element ''p'' [] [Text ''A short story.''],
           Element ''form'' [(''action'', ''/subscribe'')] [Text ''Subscribe to our list'']]]"

definition hiddenPage :: node where
  "hiddenPage =
     Element ''body'' []
       [Element ''article'' []
          [Element ''p'' [] [Text ''Visible content''],
           Element ''div'' [(''style'', ''display: none'')] [Text ''Hidden content''],
           Element ''span'' [(''hidden'', [])] [Text ''Also hidden''],
           Element ''div'' [(''class'', ''advertisement'')] [Text ''Ad content'']]]"

definition hiddenRootPage :: node where
  "hiddenRootPage =
     Element ''body'' []
       [Element ''article'' [(''hidden'', [])]
          [Element ''p'' [] [Text (replicate 120 CHR ''h'')]]]"

definition hiddenAncestorPage :: node where
  "hiddenAncestorPage =
     Element ''body'' []
       [Element ''div'' [(''style'', ''display: none'')]
          [Element ''article'' []
             [Element ''p'' [] [Text (replicate 120 CHR ''h'')]]]]"


definition thresholdPage :: "nat \<Rightarrow> node" where
  "thresholdPage k =
     Element ''body'' []
       [Element ''div'' [(''class'', ''main-content'')] [Text (replicate k CHR ''x'')],
        Element ''p'' [] [Text ''Outside the container.'']]"

definition linkPage :: node where
  "linkPage =
     Element ''body'' []
       [Element ''article'' []
          [Element ''a'' [(''href'', ''https://example.com?utm_source=test&ref=123'')] [Text ''Link'']]]"


definition readerFixture :: node where
  "readerFixture =
     Element ''div'' [(''id'', ''spanishify-reader'')]
       [Element ''p'' [] [Text ''Hello '', Element ''b'' [] [Text ''world''], Text ''.''],
        Text [CHR 0x0A, CHR '' ''],
        Element ''p'' [] [Text '' Bye '']]"

section \<open>Properties of the batch orchestrator\<close>

lemma zip_upt_shift: "zip [a ..< a + k] [0 ..< k] = map (\<lambda>m. (a + m, m)) [0 ..< k]"
  by (induction k) simp_all

lemma length_foldl_updateNode: "length (foldl (updateNode parts) st ps) = length st"
  by (induction ps arbitrary: st) auto

lemma foldl_updateNode_nth:
  assumes "j < length st"
  shows "foldl (updateNode parts) st (map (\<lambda>m. (a + m, m)) [0 ..< k]) ! j =
           (if a \<le> j \<and> j < a + k then partFor parts (j - a) (st ! j) else st ! j)"
proof (induction k)
  case 0
  then show ?case by auto
next
  case (Suc k)
  let ?st = "foldl (updateNode parts) st (map (\<lambda>m. (a + m, m)) [0 ..< k])"
  have step: "foldl (updateNode parts) st (map (\<lambda>m. (a + m, m)) [0 ..< Suc k]) =
      updateNode parts ?st (a + k, k)" by simp
  have len: "j < length ?st" using assms by (simp add: length_foldl_updateNode)
  show ?case
  proof (cases "j = a + k")
    case True
    then have "?st ! j = st ! j" using Suc by simp
    then show ?thesis unfolding step using True len
      by (simp add: partFor_def)
  next
    case False
    then have "updateNode parts ?st (a + k, k) ! j = ?st ! j" by simp
    then show ?thesis unfolding step using Suc False by auto
  qed
qed

lemma updateBatch_nth:
  assumes "j < length store" "i \<le> length store"
  shows "updateBatch (sliceNodes (length store) i (i + batchSize)) parts store ! j =
           (if i \<le> j \<and> j < i + batchSize then partFor parts (j - i) (store ! j) else store ! j)"
proof -
  let ?n = "length store"
  define k where "k = min (i + batchSize) ?n - i"
  have k: "min (i + batchSize) ?n = i + k" using assms(2) by (simp add: k_def)
  have "sliceNodes ?n i (i + batchSize) = [i ..< i + k]"
    using assms(2) k by (simp add: sliceNodes_def)
  then have "updateBatch (sliceNodes ?n i (i + batchSize)) parts store =
      foldl (updateNode parts) store (map (\<lambda>m. (i + m, m)) [0 ..< k])"
    by (simp add: updateBatch_def zip_upt_shift)
  then show ?thesis using foldl_updateNode_nth[OF assms(1), of parts i k] k assms
    by (auto simp: min_def split: if_splits)
qed

lemmas run_defs = runStatus_def finalTexts_def finalWorld_def translatorCalls_def

lemma translateBatches_done:
  "\<not> i < length store \<Longrightarrow> translateBatches tr d i store w = (Completed, store, w, [])"
  by (simp add: translateBatches.simps)

lemma translateBatches_throw:
  "i < length store \<Longrightarrow> tr (batchText store i) d w = (Inl err, w') \<Longrightarrow>
   translateBatches tr d i store w =
     (Aborted err, store, showNotification (''Translation error: '' @ message err) w',
      [(batchAt store i, Inl err)])"
  by (subst translateBatches.simps) (simp add: batchText_def batchAt_def)

lemma translateBatches_step:
  "i < length store \<Longrightarrow> tr (batchText store i) d w = (Inr t, w') \<Longrightarrow>
   translateBatches tr d i store w =
     (let r = translateBatches tr d (i + batchSize)
                (updateBatch (batchAt store i) (split t separator) store) w'
      in (runStatus r, finalTexts r, finalWorld r, (batchAt store i, Inr t) # translatorCalls r))"
  by (subst translateBatches.simps)
     (simp add: batchText_def batchAt_def run_defs Let_def split: prod.splits)

lemma translateBatches_cases:
  assumes "i < length store"
  obtains (throw) err w' where "tr (batchText store i) d w = (Inl err, w')"
  | (step) t w' where "tr (batchText store i) d w = (Inr t, w')"
  by (cases "tr (batchText store i) d w"; cases "fst (tr (batchText store i) d w)") auto

lemma length_finalTexts: "length (finalTexts (translateBatches tr d i store w)) = length store"
proof (induction "length store - i" arbitrary: i store w rule: less_induct)
  case less
  show ?case
  proof (cases "i < length store")
    case False
    then show ?thesis by (simp add: translateBatches_done run_defs)
  next
    case True
    then show ?thesis
    proof (cases rule: translateBatches_cases[of i store tr d w])
      case (throw err w')
      then show ?thesis using True by (simp add: translateBatches_throw run_defs)
    next
      case (step t w')
      let ?store' = "updateBatch (batchAt store i) (split t separator) store"
      have "length ?store' - (i + batchSize) < length store - i"
        using True by (simp add: batchSize_def)
      from less[OF this] show ?thesis using True step
        by (simp add: translateBatches_step Let_def) (simp add: finalTexts_def)
    qed
  qed
qed

lemma finalTexts_before:
  "j < i \<Longrightarrow> j < length store \<Longrightarrow> finalTexts (translateBatches tr d i store w) ! j = store ! j"
proof (induction "length store - i" arbitrary: i store w rule: less_induct)
  case less
  show ?case
  proof (cases "i < length store")
    case False
    then show ?thesis by (simp add: translateBatches_done run_defs)
  next
    case True
    then show ?thesis
    proof (cases rule: translateBatches_cases[of i store tr d w])
      case (throw err w')
      then show ?thesis using True by (simp add: translateBatches_throw run_defs)
    next
      case (step t w')
      let ?store' = "updateBatch (batchAt store i) (split t separator) store"
      have "length ?store' - (i + batchSize) < length store - i"
        using True by (simp add: batchSize_def)
      from less(1)[OF this, of w'] less(2,3)
      have "finalTexts (translateBatches tr d (i + batchSize) ?store' w') ! j = ?store' ! j"
        by simp
      moreover have "?store' ! j = store ! j"
        using updateBatch_nth[of j store i "split t separator"] less(2,3) True
        by (simp add: batchAt_def)
      ultimately show ?thesis using True step
        by (simp add: translateBatches_step Let_def) (simp add: finalTexts_def)
    qed
  qed
qed

lemma batchAt_cong: "length s' = length s \<Longrightarrow> batchAt s' i = batchAt s i"
  by (simp add: batchAt_def)

lemma step_measure:
  "i < length store \<Longrightarrow>
   length (updateBatch b ps store) - (i + batchSize) < length store - i"
  by (simp add: batchSize_def)

lemma finalTexts_from:
  assumes "i \<le> j" "j < length store"
  shows "finalTexts (translateBatches tr d i store w) ! j =
     (let calls = translatorCalls (translateBatches tr d i store w);
          k = (j - i) div batchSize
      in if k < length calls
         then (case snd (calls ! k) of
                 Inl err \<Rightarrow> store ! j
               | Inr t \<Rightarrow> partFor (split t separator) ((j - i) mod batchSize) (store ! j))
         else store ! j)"
  using assms
proof (induction "length store - i" arbitrary: i store w rule: less_induct)
  case less
  from less.prems have True: "i < length store" by simp
  then show ?case
  proof (cases rule: translateBatches_cases[of i store tr d w])
    case (throw err w')
    then show ?thesis using True
      by (simp add: translateBatches_throw run_defs Let_def)
  next
    case (step t w')
    let ?store' = "updateBatch (batchAt store i) (split t separator) store"
    let ?r' = "translateBatches tr d (i + batchSize) ?store' w'"
    have run: "translateBatches tr d i store w =
        (runStatus ?r', finalTexts ?r', finalWorld ?r', (batchAt store i, Inr t) # translatorCalls ?r')"
      using True step by (simp add: translateBatches_step Let_def)
    have fin: "finalTexts (translateBatches tr d i store w) = finalTexts ?r'"
      and calls: "translatorCalls (translateBatches tr d i store w) =
        (batchAt store i, Inr t) # translatorCalls ?r'"
      unfolding run by (simp_all add: finalTexts_def translatorCalls_def)
    have upd: "?store' ! j =
        (if j < i + batchSize then partFor (split t separator) (j - i) (store ! j) else store ! j)"
      using updateBatch_nth[of j store i "split t separator"] less.prems True
      by (simp add: batchAt_def)
    show ?thesis
    proof (cases "j < i + batchSize")
      case near: True
      then have "finalTexts ?r' ! j = ?store' ! j"
        using finalTexts_before[of j "i + batchSize" ?store'] less.prems by simp
      moreover have "(j - i) div batchSize = 0" "(j - i) mod batchSize = j - i"
        using near less.prems by (simp_all add: batchSize_def)
      ultimately show ?thesis using upd near
        by (simp add: fin calls Let_def)
    next
      case far: False
      then have le: "i + batchSize \<le> j" by simp
      have len: "j < length ?store'" using less.prems by simp
      have ih: "finalTexts ?r' ! j =
         (let calls = translatorCalls ?r'; k = (j - (i + batchSize)) div batchSize
          in if k < length calls
             then (case snd (calls ! k) of
                     Inl err \<Rightarrow> ?store' ! j
                   | Inr t \<Rightarrow> partFor (split t separator) ((j - (i + batchSize)) mod batchSize) (?store' ! j))
             else ?store' ! j)"
        using less.hyps[OF step_measure[OF True, of "batchAt store i" "split t separator"] le len] .
      have k: "(j - i) div batchSize = Suc ((j - (i + batchSize)) div batchSize)"
              "(j - i) mod batchSize = (j - (i + batchSize)) mod batchSize"
      proof -
        define m where "m = j - (i + batchSize)"
        have a: "j - i = m + batchSize" using le by (simp add: m_def)
        have "(m + batchSize) div batchSize = Suc (m div batchSize)"
          "(m + batchSize) mod batchSize = m mod batchSize"
          by (simp_all add: batchSize_def)
        then show "(j - i) div batchSize = Suc ((j - (i + batchSize)) div batchSize)"
          "(j - i) mod batchSize = (j - (i + batchSize)) mod batchSize"
          unfolding a m_def[symmetric] by simp_all
      qed
      have "?store' ! j = store ! j" using upd far by simp
      then show ?thesis
        by (simp add: fin calls Let_def k ih split: sum.splits)
    qed
  qed
qed

lemma translatorCalls_batches:
  "map fst (translatorCalls (translateBatches tr d i store w)) =
     map (\<lambda>k. batchAt store (i + batchSize * k))
       [0 ..< length (translatorCalls (translateBatches tr d i store w))]"
proof (induction "length store - i" arbitrary: i store w rule: less_induct)
  case less
  show ?case
  proof (cases "i < length store")
    case False
    then show ?thesis by (simp add: translateBatches_done run_defs)
  next
    case True
    then show ?thesis
    proof (cases rule: translateBatches_cases[of i store tr d w])
      case (throw err w')
      then show ?thesis using True by (simp add: translateBatches_throw run_defs)
    next
      case (step t w')
      let ?store' = "updateBatch (batchAt store i) (split t separator) store"
      let ?r' = "translateBatches tr d (i + batchSize) ?store' w'"
      have run: "translateBatches tr d i store w =
          (runStatus ?r', finalTexts ?r', finalWorld ?r', (batchAt store i, Inr t) # translatorCalls ?r')"
        using True step by (simp add: translateBatches_step Let_def)
      have "map fst (translatorCalls ?r') =
          map (\<lambda>k. batchAt ?store' (i + batchSize + batchSize * k)) [0 ..< length (translatorCalls ?r')]"
        using less.hyps[OF step_measure[OF True, of "batchAt store i" "split t separator"], of w'] .
      then have ih: "map fst (translatorCalls ?r') =
          map (\<lambda>k. batchAt store (i + batchSize * Suc k)) [0 ..< length (translatorCalls ?r')]"
        by (simp add: batchAt_def add.assoc)
      have shift: "[0 ..< Suc n] = 0 # map Suc [0 ..< n]" for n
        by (simp add: upt_conv_Cons map_Suc_upt del: upt_Suc)
      have "translatorCalls (translateBatches tr d i store w) =
          (batchAt store i, Inr t) # translatorCalls ?r'"
        by (simp add: run) (simp add: translatorCalls_def)
      then show ?thesis using ih
        by (simp add: shift comp_def del: upt_Suc)
    qed
  qed
qed

lemma run_unfold:
  assumes "i < length store" "tr (batchText store i) d w = (Inr t, w')"
  defines "r' \<equiv> translateBatches tr d (i + batchSize)
                   (updateBatch (batchAt store i) (split t separator) store) w'"
  shows "runStatus (translateBatches tr d i store w) = runStatus r'"
    and "finalTexts (translateBatches tr d i store w) = finalTexts r'"
    and "finalWorld (translateBatches tr d i store w) = finalWorld r'"
    and "translatorCalls (translateBatches tr d i store w) = (batchAt store i, Inr t) # translatorCalls r'"
  using assms(1,2) unfolding r'_def
  by (simp_all add: translateBatches_step Let_def) (simp_all add: run_defs)

lemma ceil_step:
  assumes "i < n"
  shows "(n - i + (batchSize - 1)) div batchSize =
     Suc ((n - (i + batchSize) + (batchSize - 1)) div batchSize)"
proof (cases "i + batchSize \<le> n")
  case True
  define x where "x = n - (i + batchSize) + (batchSize - 1)"
  have "n - i + (batchSize - 1) = x + batchSize" using True by (simp add: x_def)
  moreover have "(x + batchSize) div batchSize = Suc (x div batchSize)"
    by (simp add: batchSize_def)
  ultimately show ?thesis by (simp only: x_def)
next
  case False
  define y where "y = n - i - 1"
  have y: "n - i + (batchSize - 1) = y + batchSize" "y < batchSize"
    using False assms by (simp_all add: y_def batchSize_def)
  have "(y + batchSize) div batchSize = Suc 0" using y(2) by (simp add: batchSize_def)
  moreover have "n - (i + batchSize) = 0" using False by simp
  ultimately show ?thesis using y(1) by (simp add: batchSize_def)
qed

lemma completed_calls:
  assumes "runStatus (translateBatches tr d i store w) = Completed"
  shows "length (translatorCalls (translateBatches tr d i store w)) =
           (length store - i + (batchSize - 1)) div batchSize \<and>
         (\<forall>m < length (translatorCalls (translateBatches tr d i store w)).
            \<exists>t. snd (translatorCalls (translateBatches tr d i store w) ! m) = Inr t)"
  using assms
proof (induction "length store - i" arbitrary: i store w rule: less_induct)
  case less
  show ?case
  proof (cases "i < length store")
    case False
    then show ?thesis by (simp add: translateBatches_done run_defs batchSize_def)
  next
    case True
    then show ?thesis
    proof (cases rule: translateBatches_cases[of i store tr d w])
      case (throw err w')
      then show ?thesis using True less.prems by (simp add: translateBatches_throw run_defs)
    next
      case (step t w')
      let ?store' = "updateBatch (batchAt store i) (split t separator) store"
      let ?r' = "translateBatches tr d (i + batchSize) ?store' w'"
      note u = run_unfold[where tr = tr, OF True step]
      have "runStatus ?r' = Completed" using less.prems u(1) by simp
      from less.hyps[OF step_measure[OF True, of "batchAt store i" "split t separator"] this]
      have ih: "length (translatorCalls ?r') = (length store - (i + batchSize) + (batchSize - 1)) div batchSize"
        "\<forall>m < length (translatorCalls ?r'). \<exists>t. snd (translatorCalls ?r' ! m) = Inr t"
        by simp_all
      have "(length store - i + (batchSize - 1)) div batchSize =
            Suc ((length store - (i + batchSize) + (batchSize - 1)) div batchSize)"
        using True by (rule ceil_step)
      then have "length (translatorCalls (translateBatches tr d i store w)) =
           (length store - i + (batchSize - 1)) div batchSize"
        unfolding u(4) using ih(1) by (simp only: length_Cons)
      moreover have "\<exists>t'. snd (translatorCalls (translateBatches tr d i store w) ! m) = Inr t'"
        if "m < length (translatorCalls (translateBatches tr d i store w))" for m
      proof (cases m)
        case 0
        then show ?thesis by (simp add: u(4))
      next
        case (Suc m')
        then show ?thesis using ih(2) that by (simp add: u(4))
      qed
      ultimately show ?thesis by blast
    qed
  qed
qed

lemma aborted_calls:
  assumes "runStatus (translateBatches tr d i store w) = Aborted err"
  shows "translatorCalls (translateBatches tr d i store w) \<noteq> [] \<and>
         snd (last (translatorCalls (translateBatches tr d i store w))) = Inl err \<and>
         (\<forall>m. Suc m < length (translatorCalls (translateBatches tr d i store w)) \<longrightarrow>
            (\<exists>t. snd (translatorCalls (translateBatches tr d i store w) ! m) = Inr t)) \<and>
         notifications (finalWorld (translateBatches tr d i store w)) \<noteq> [] \<and>
         last (notifications (finalWorld (translateBatches tr d i store w))) =
           ''Translation error: '' @ message err"
  using assms
proof (induction "length store - i" arbitrary: i store w rule: less_induct)
  case less
  show ?case
  proof (cases "i < length store")
    case False
    then show ?thesis using less.prems by (simp add: translateBatches_done run_defs)
  next
    case True
    then show ?thesis
    proof (cases rule: translateBatches_cases[of i store tr d w])
      case (throw err' w')
      then show ?thesis using True less.prems
        by (simp add: translateBatches_throw run_defs showNotification_def)
    next
      case (step t w')
      let ?store' = "updateBatch (batchAt store i) (split t separator) store"
      let ?r' = "translateBatches tr d (i + batchSize) ?store' w'"
      note u = run_unfold[where tr = tr, OF True step]
      have "runStatus ?r' = Aborted err" using less.prems u(1) by simp
      from less.hyps[OF step_measure[OF True, of "batchAt store i" "split t separator"] this]
      have ih: "translatorCalls ?r' \<noteq> []"
        "snd (last (translatorCalls ?r')) = Inl err"
        "\<forall>m. Suc m < length (translatorCalls ?r') \<longrightarrow> (\<exists>t. snd (translatorCalls ?r' ! m) = Inr t)"
        "notifications (finalWorld ?r') \<noteq> []"
        "last (notifications (finalWorld ?r')) = ''Translation error: '' @ message err"
        by simp_all
      have "\<exists>t'. snd (translatorCalls (translateBatches tr d i store w) ! m) = Inr t'"
        if "Suc m < length (translatorCalls (translateBatches tr d i store w))" for m
      proof (cases m)
        case 0
        then show ?thesis by (simp add: u(4))
      next
        case (Suc m')
        then show ?thesis using ih(3) that by (simp add: u(4))
      qed
      moreover have "translatorCalls (translateBatches tr d i store w) \<noteq> []"
        by (simp add: u(4))
      moreover have "snd (last (translatorCalls (translateBatches tr d i store w))) = Inl err"
        using ih(1,2) by (simp add: u(4))
      moreover have "notifications (finalWorld (translateBatches tr d i store w)) \<noteq> []"
        "last (notifications (finalWorld (translateBatches tr d i store w))) =
           ''Translation error: '' @ message err"
        using ih(4,5) by (simp_all add: u(3))
      ultimately show ?thesis by blast
    qed
  qed
qed

lemma never_throws_completes:
  assumes "\<And>t w. \<exists>x w'. tr t d w = (Inr x, w')"
  shows "runStatus (translateBatches tr d i store w) = Completed"
proof (induction "length store - i" arbitrary: i store w rule: less_induct)
  case less
  show ?case
  proof (cases "i < length store")
    case False
    then show ?thesis by (simp add: translateBatches_done run_defs)
  next
    case True
    obtain t w' where step: "tr (batchText store i) d w = (Inr t, w')"
      using assms by blast
    show ?thesis
      using less.hyps[OF step_measure[OF True, of "batchAt store i" "split t separator"], of w']
      by (simp add: run_unfold(1)[where tr = tr, OF True step])
  qed
qed

lemma translateText_returns: "\<exists>x w'. translateText e t d w = (Inr x, w')"
proof (cases "translationCache w (cacheKey d t)")
  case (Some cached)
  then show ?thesis by (simp add: translateText_def)
next
  case None
  obtain r w1 where req: "requestTranslation e (getPromptForDifficulty t d) w = (r, w1)"
    by (cases "requestTranslation e (getPromptForDifficulty t d) w")
  show ?thesis
    by (cases r) (simp_all add: translateText_def None req)
qed

lemma sliceNodes_eq: "sliceNodes n i j = [i ..< min j n]"
  by (simp add: sliceNodes_def min_def)

lemma calls_bound:
  "length (translatorCalls (translateBatches tr d i store w)) \<le>
     (length store - i + (batchSize - 1)) div batchSize"
proof (induction "length store - i" arbitrary: i store w rule: less_induct)
  case less
  show ?case
  proof (cases "i < length store")
    case False
    then show ?thesis by (simp add: translateBatches_done run_defs)
  next
    case True
    then show ?thesis
    proof (cases rule: translateBatches_cases[of i store tr d w])
      case (throw err w')
      then have "length (translatorCalls (translateBatches tr d i store w)) = 1"
        using True by (simp add: translateBatches_throw run_defs)
      then show ?thesis unfolding ceil_step[OF True] by (simp only: One_nat_def Suc_le_mono le0)
    next
      case (step t w')
      note u = run_unfold[where tr = tr, OF True step]
      let ?r' = "translateBatches tr d (i + batchSize)
                   (updateBatch (batchAt store i) (split t separator) store) w'"
      have "length (translatorCalls ?r') \<le>
          (length store - (i + batchSize) + (batchSize - 1)) div batchSize"
        using less.hyps[OF step_measure[OF True, of "batchAt store i" "split t separator"], of w']
        by simp
      then have "Suc (length (translatorCalls ?r')) \<le>
          Suc ((length store - (i + batchSize) + (batchSize - 1)) div batchSize)"
        by (rule Suc_le_mono[THEN iffD2])
      then show ?thesis unfolding u(4) ceil_step[OF True] by (simp only: length_Cons)
    qed
  qed
qed

lemma div_lt_ceil: "j < n \<Longrightarrow> j div batchSize < (n + (batchSize - 1)) div batchSize"
proof -
  assume "j < n"
  then have "Suc j \<le> n" by simp
  then have "(Suc j + (batchSize - 1)) div batchSize \<le> (n + (batchSize - 1)) div batchSize"
    by (intro div_le_mono) simp
  moreover have "(Suc j + (batchSize - 1)) div batchSize = Suc (j div batchSize)"
    by (simp add: batchSize_def)
  ultimately show ?thesis by simp
qed

lemma ceil_gt_mult: "k < (n + (batchSize - 1)) div batchSize \<Longrightarrow> batchSize * k < n"
proof (rule ccontr)
  assume k: "k < (n + (batchSize - 1)) div batchSize" and "\<not> batchSize * k < n"
  then have "n + (batchSize - 1) \<le> batchSize * k + (batchSize - 1)" by simp
  then have "(n + (batchSize - 1)) div batchSize \<le> (batchSize * k + (batchSize - 1)) div batchSize"
    by (rule div_le_mono)
  moreover have "(batchSize * k + (batchSize - 1)) div batchSize = k"
    by (simp add: batchSize_def)
  ultimately show False using k by simp
qed

section \<open>Claims about the batch orchestrator\<close>

text \<open>
  C1 (as stated, refuted). The claim's example says that when the second batch's answer
  has three parts, units 6 and 7 are translated and units 8 to 10 keep their text. In the
  scripted run the second answer has exactly three parts, and unit 8 (index 7) receives
  the third part instead of keeping its text. Counting units from zero does not save the
  example: the unit at index 10 belongs to the third batch and receives that batch's
  first part.
\<close>

theorem batch_example_counterexample:
  "length (split (join separator [''b1'', ''b2'', ''b3'']) separator) = 3 \<and>
   twelveUnits ! 7 = ''unit 8'' \<and>
   finalTexts (translateBatches (translateText scriptedEnv) 5 0 twelveUnits emptyWorld) ! 7 = ''b3'' \<and>
   twelveUnits ! 10 = ''unit 11'' \<and>
   finalTexts (translateBatches (translateText scriptedEnv) 5 0 twelveUnits emptyWorld) ! 10 = ''c1''"
  by code_simp

text \<open>
  C1 (amended). With \<open>translateText\<close> as the translator the run always completes; the
  batches issued are the contiguous slices \<open>[5k, min (5k + 5) n)\<close> for
  \<open>k < \<lceil>n / 5\<rceil>\<close>, so twelve units give three batches of sizes 5, 5 and 2; and unit
  \<open>j\<close> ends with part \<open>j mod 5\<close> of the answer to batch \<open>j div 5\<close> when that part exists
  and is not empty, and with its original text otherwise. For an answer of three parts
  to the second batch these are units 6 to 8 translated and units 9 and 10 unchanged.
\<close>

theorem batch_correspondence:
  "runStatus (translateBatches (translateText e) d 0 units w) = Completed \<and>
   map fst (translatorCalls (translateBatches (translateText e) d 0 units w)) =
     map (\<lambda>k. [batchSize * k ..< min (batchSize * k + batchSize) (length units)])
       [0 ..< (length units + (batchSize - 1)) div batchSize] \<and>
   (length units = 12 \<longrightarrow>
      map (length \<circ> fst) (translatorCalls (translateBatches (translateText e) d 0 units w)) = [5, 5, 2]) \<and>
   length (finalTexts (translateBatches (translateText e) d 0 units w)) = length units \<and>
   (\<forall>j < length units. \<exists>t.
      snd (translatorCalls (translateBatches (translateText e) d 0 units w) ! (j div batchSize)) = Inr t \<and>
      finalTexts (translateBatches (translateText e) d 0 units w) ! j =
        (if j mod batchSize < length (split t separator) \<and> split t separator ! (j mod batchSize) \<noteq> []
         then split t separator ! (j mod batchSize) else units ! j))"
proof -
  let ?r = "translateBatches (translateText e) d 0 units w"
  have completed: "runStatus ?r = Completed"
    by (rule never_throws_completes) (rule translateText_returns)
  have len: "length (translatorCalls ?r) = (length units + (batchSize - 1)) div batchSize"
    and inr: "\<And>m. m < length (translatorCalls ?r) \<Longrightarrow> \<exists>t. snd (translatorCalls ?r ! m) = Inr t"
    using completed_calls[OF completed] by simp_all
  have batches: "map fst (translatorCalls ?r) =
     map (\<lambda>k. [batchSize * k ..< min (batchSize * k + batchSize) (length units)])
       [0 ..< (length units + (batchSize - 1)) div batchSize]"
    using translatorCalls_batches[of "translateText e" d 0 units w]
    by (simp add: len batchAt_def sliceNodes_eq)
  have twelve: "map (length \<circ> fst) (translatorCalls ?r) = [5, 5, 2]" if "length units = 12"
  proof -
    have "map (length \<circ> fst) (translatorCalls ?r) = map length (map fst (translatorCalls ?r))"
      by simp
    also have "\<dots> = [5, 5, 2]"
      unfolding batches by (simp add: that batchSize_def numeral_3_eq_3)
    finally show ?thesis .
  qed
  have point: "\<exists>t. snd (translatorCalls ?r ! (j div batchSize)) = Inr t \<and>
      finalTexts ?r ! j =
        (if j mod batchSize < length (split t separator) \<and> split t separator ! (j mod batchSize) \<noteq> []
         then split t separator ! (j mod batchSize) else units ! j)" if j: "j < length units" for j
  proof -
    have k: "j div batchSize < length (translatorCalls ?r)"
      using div_lt_ceil[OF j] by (simp add: len)
    then obtain t where t: "snd (translatorCalls ?r ! (j div batchSize)) = Inr t"
      using inr by blast
    show ?thesis
      using finalTexts_from[of 0 j units "translateText e" d w] j k t
      by (simp add: Let_def partFor_def)
  qed
  show ?thesis using completed batches twelve length_finalTexts point by blast
qed

theorem batch_correspondence_witness:
  "runStatus (translateBatches (translateText scriptedEnv) 5 0 twelveUnits emptyWorld) = Completed \<and>
   map (length \<circ> fst)
     (translatorCalls (translateBatches (translateText scriptedEnv) 5 0 twelveUnits emptyWorld)) = [5, 5, 2] \<and>
   finalTexts (translateBatches (translateText scriptedEnv) 5 0 twelveUnits emptyWorld) =
     [''a1'', ''a2'', ''a3'', ''a4'', ''a5'', ''b1'', ''b2'', ''b3'', ''unit 9'', ''unit 10'', ''c1'', ''c2'']"
proof -
  have n: "length twelveUnits = 12" by (simp add: twelveUnits_def)
  have texts: "finalTexts (translateBatches (translateText scriptedEnv) 5 0 twelveUnits emptyWorld) =
     [''a1'', ''a2'', ''a3'', ''a4'', ''a5'', ''b1'', ''b2'', ''b3'', ''unit 9'', ''unit 10'', ''c1'', ''c2'']"
    by code_simp
  show ?thesis
    using batch_correspondence[of scriptedEnv 5 twelveUnits emptyWorld] n texts by blast
qed

text \<open>
  C10. A unit's text changes only by receiving a part of its batch's answer that is
  present and not empty; where the part at the unit's position is the empty string, at
  whatever position, the unit keeps its text; so a unit whose text was not empty never
  ends with empty text.
\<close>

theorem empty_part_never_written:
  assumes "j < length units"
  shows "(finalTexts (translateBatches tr d 0 units w) ! j \<noteq> units ! j \<longrightarrow>
           finalTexts (translateBatches tr d 0 units w) ! j \<noteq> [] \<and>
           (\<exists>t. j div batchSize < length (translatorCalls (translateBatches tr d 0 units w)) \<and>
                snd (translatorCalls (translateBatches tr d 0 units w) ! (j div batchSize)) = Inr t \<and>
                j mod batchSize < length (split t separator) \<and>
                finalTexts (translateBatches tr d 0 units w) ! j = split t separator ! (j mod batchSize))) \<and>
         (\<forall>t. j div batchSize < length (translatorCalls (translateBatches tr d 0 units w)) \<and>
              snd (translatorCalls (translateBatches tr d 0 units w) ! (j div batchSize)) = Inr t \<and>
              j mod batchSize < length (split t separator) \<and>
              split t separator ! (j mod batchSize) = [] \<longrightarrow>
              finalTexts (translateBatches tr d 0 units w) ! j = units ! j) \<and>
         (units ! j \<noteq> [] \<longrightarrow> finalTexts (translateBatches tr d 0 units w) ! j \<noteq> [])"
proof -
  let ?r = "translateBatches tr d 0 units w"
  let ?calls = "translatorCalls ?r"
  let ?k = "j div batchSize"
  note fin = finalTexts_from[of 0 j units tr d w, simplified Let_def, simplified, OF assms]
  show ?thesis
  proof (cases "?k < length ?calls")
    case False
    then show ?thesis using fin by simp
  next
    case True
    show ?thesis
    proof (cases "snd (?calls ! ?k)")
      case (Inl err)
      then show ?thesis using fin True by simp
    next
      case (Inr t)
      then have "finalTexts ?r ! j = partFor (split t separator) (j mod batchSize) (units ! j)"
        using fin True by simp
      then show ?thesis using True Inr
        by (auto simp: partFor_def split: if_splits)
    qed
  qed
qed

theorem empty_part_never_written_witness:
  "split (join separator [''uno'', [], ''tres'']) separator = [''uno'', [], ''tres''] \<and>
   finalTexts (translateBatches (translateText gapEnv) 5 0 threeUnits emptyWorld) ! 0 = ''uno'' \<and>
   finalTexts (translateBatches (translateText gapEnv) 5 0 threeUnits emptyWorld) ! 1 = ''two'' \<and>
   finalTexts (translateBatches (translateText gapEnv) 5 0 threeUnits emptyWorld) ! 2 = ''tres''"
proof -
  have parts: "split (join separator [''uno'', [], ''tres'']) separator = [''uno'', [], ''tres'']"
    by code_simp
  have call: "translatorCalls (translateBatches (translateText gapEnv) 5 0 threeUnits emptyWorld) =
      [([0, 1, 2], Inr (join separator [''uno'', [], ''tres'']))]"
    by code_simp
  have others: "finalTexts (translateBatches (translateText gapEnv) 5 0 threeUnits emptyWorld) ! 0 = ''uno''"
    "finalTexts (translateBatches (translateText gapEnv) 5 0 threeUnits emptyWorld) ! 2 = ''tres''"
    by code_simp+
  have j: "(1::nat) < length threeUnits" by (simp add: threeUnits_def)
  have "finalTexts (translateBatches (translateText gapEnv) 5 0 threeUnits emptyWorld) ! 1 = threeUnits ! 1"
    using empty_part_never_written[OF j, of "translateText gapEnv" 5 emptyWorld] call parts
    by (simp add: batchSize_def)
  then have "finalTexts (translateBatches (translateText gapEnv) 5 0 threeUnits emptyWorld) ! 1 = ''two''"
    by (simp add: threeUnits_def)
  with others parts show ?thesis by blast
qed

section \<open>Properties of the cache and client\<close>

lemma digitChar_value: "m < 10 \<Longrightarrow> of_char (digitChar m) - 48 = m"
  by (simp add: digitChar_def)

lemma decimalValue_digits: "decimalValue (digits n) = n"
proof (induction n rule: digits.induct)
  case (1 n)
  show ?case
  proof (cases "n < 10")
    case True
    then show ?thesis
      by (subst digits.simps) (simp add: decimalValue_def digitChar_value)
  next
    case False
    then have "decimalValue (digits (n div 10)) = n div 10" using 1 by simp
    then show ?thesis using False
      by (subst digits.simps) (simp add: decimalValue_def digitChar_value)
  qed
qed

lemma digits_inj: "digits a = digits b \<Longrightarrow> a = b"
  by (metis decimalValue_digits)

lemma digitChar_range: "m < 10 \<Longrightarrow> (of_char (digitChar m) :: nat) \<in> {48 ..< 58}"
  by (simp add: digitChar_def)

lemma digits_chars: "c \<in> set (digits n) \<Longrightarrow> (of_char c :: nat) \<in> {48 ..< 58}"
proof (induction n rule: digits.induct)
  case (1 n)
  show ?case
  proof (cases "n < 10")
    case True
    then show ?thesis using 1(2) digitChar_range[of n]
      by (subst (asm) digits.simps) simp
  next
    case False
    then show ?thesis using 1 digitChar_range[of "n mod 10"]
      by (subst (asm) (2) digits.simps) auto
  qed
qed

lemma digits_nonempty: "digits n \<noteq> []"
  by (subst digits.simps) simp

lemma numberToString_chars:
  "c \<in> set (numberToString i) \<Longrightarrow> c = CHR ''-'' \<or> (of_char c :: nat) \<in> {48 ..< 58}"
  by (auto simp: numberToString_def dest: digits_chars split: if_splits)

lemma numberToString_no_colon: "CHR '':'' \<notin> set (numberToString i)"
  using numberToString_chars[of "CHR '':''" i] by auto

lemma minus_not_digit: "CHR ''-'' \<notin> set (digits n)"
  using digits_chars[of "CHR ''-''" n] by auto

lemma numberToString_inj: "numberToString a = numberToString b \<Longrightarrow> a = b"
proof -
  assume eq: "numberToString a = numberToString b"
  have hd_nonneg: "hd (digits n) \<noteq> CHR ''-''" for n
    using minus_not_digit[of n] digits_nonempty[of n] by (cases "digits n") auto
  show ?thesis
  proof (cases "a < 0"; cases "b < 0")
    assume "a < 0" "b < 0"
    then have "digits (nat (- a)) = digits (nat (- b))" using eq by (simp add: numberToString_def)
    then have "nat (- a) = nat (- b)" by (rule digits_inj)
    then show ?thesis using \<open>a < 0\<close> \<open>b < 0\<close> by simp
  next
    assume "a < 0" "\<not> b < 0"
    then have "CHR ''-'' # digits (nat (- a)) = digits (nat b)" using eq by (simp add: numberToString_def)
    then show ?thesis using hd_nonneg[of "nat b"] by (metis list.sel(1))
  next
    assume "\<not> a < 0" "b < 0"
    then have "digits (nat a) = CHR ''-'' # digits (nat (- b))" using eq by (simp add: numberToString_def)
    then show ?thesis using hd_nonneg[of "nat a"] by (metis list.sel(1))
  next
    assume "\<not> a < 0" "\<not> b < 0"
    then have "digits (nat a) = digits (nat b)" using eq by (simp add: numberToString_def)
    then have "nat a = nat b" by (rule digits_inj)
    then show ?thesis using \<open>\<not> a < 0\<close> \<open>\<not> b < 0\<close> by simp
  qed
qed

lemma cacheKey_inj: "cacheKey d1 t1 = cacheKey d2 t2 \<longleftrightarrow> d1 = d2 \<and> t1 = t2"
proof
  assume eq: "cacheKey d1 t1 = cacheKey d2 t2"
  have nc: "x \<noteq> CHR '':''" if "x \<in> set (numberToString d)" for x d
    using that numberToString_no_colon[of d] by auto
  have tw: "takeWhile (\<lambda>c. c \<noteq> CHR '':'') (cacheKey d t) = numberToString d" for d t
    unfolding cacheKey_def by (subst takeWhile_append2) (simp_all add: nc)
  have dw: "dropWhile (\<lambda>c. c \<noteq> CHR '':'') (cacheKey d t) = CHR '':'' # t" for d t
    unfolding cacheKey_def by (subst dropWhile_append2) (simp_all add: nc)
  from eq tw have "numberToString d1 = numberToString d2" by metis
  then have "d1 = d2" by (rule numberToString_inj)
  moreover from eq dw have "CHR '':'' # t1 = CHR '':'' # t2" by metis
  ultimately show "d1 = d2 \<and> t1 = t2" by simp
qed simp

lemma requestTranslation_success:
  assumes "apiKeyAt e (storageReads w) = Some k" "k \<noteq> []"
    and "fetchAt e (length (fetchCalls w)) k prompt = Response True (Data m (Content c))"
  shows "requestTranslation e prompt w =
           (Inr (trim c), w\<lparr>storageReads := storageReads w + 1, fetchCalls := fetchCalls w @ [prompt]\<rparr>)"
  using assms by (simp add: requestTranslation_def readCompletion_def Let_def)

lemma requestTranslation_effects:
  "storageReads (snd (requestTranslation e prompt w)) = storageReads w + 1 \<and>
   translationCache (snd (requestTranslation e prompt w)) = translationCache w \<and>
   notifications (snd (requestTranslation e prompt w)) = notifications w \<and>
   fetchCalls (snd (requestTranslation e prompt w)) =
     (case apiKeyAt e (storageReads w) of
        None \<Rightarrow> fetchCalls w
      | Some k \<Rightarrow> if k = [] then fetchCalls w else fetchCalls w @ [prompt])"
  by (simp add: requestTranslation_def Let_def split: option.splits fetched.splits)

lemma translateText_hit:
  "translationCache w (cacheKey d text) = Some v \<Longrightarrow> translateText e text d w = (Inr v, w)"
  by (simp add: translateText_def)

lemma translateText_miss_success:
  assumes "translationCache w (cacheKey d text) = None"
    and "requestTranslation e (getPromptForDifficulty text d) w = (Inr t, w')"
  shows "translateText e text d w =
           (Inr t, w'\<lparr>translationCache := (translationCache w')(cacheKey d text \<mapsto> t)\<rparr>)"
  using assms by (simp add: translateText_def)

lemma translateText_miss_failure:
  assumes "translationCache w (cacheKey d text) = None"
    and "requestTranslation e (getPromptForDifficulty text d) w = (Inl err, w')"
  shows "translateText e text d w =
           (Inr text, showNotification (''Translation failed: '' @ message err) w')"
  using assms by (simp add: translateText_def)

lemma translateText_miss_fetches:
  assumes "translationCache w (cacheKey d text) = None"
    and "apiKeyAt e (storageReads w) = Some k" "k \<noteq> []"
  shows "fetchCalls (snd (translateText e text d w)) = fetchCalls w @ [getPromptForDifficulty text d]"
    and "storageReads (snd (translateText e text d w)) = storageReads w + 1"
proof -
  obtain r w' where req: "requestTranslation e (getPromptForDifficulty text d) w = (r, w')"
    by (cases "requestTranslation e (getPromptForDifficulty text d) w")
  have eff: "fetchCalls w' = fetchCalls w @ [getPromptForDifficulty text d]"
    "storageReads w' = storageReads w + 1"
    using requestTranslation_effects[of e "getPromptForDifficulty text d" w] assms(2,3) req
    by simp_all
  show "fetchCalls (snd (translateText e text d w)) = fetchCalls w @ [getPromptForDifficulty text d]"
    "storageReads (snd (translateText e text d w)) = storageReads w + 1"
    using eff assms(1) req
    by (cases r; simp add: translateText_def showNotification_def)+
qed

section \<open>Claims about the cache and client\<close>

text \<open>
  C2. Starting from a cache without an entry for the key, with a credential stored and
  the service answering successfully: the first call returns the trimmed completion and
  makes one remote call; a second call with the same text and difficulty returns the
  same string and leaves the world as it was (no remote call, no other effect), as does
  every call that finds its key in the cache. The key is the rendered difficulty, a
  colon, and the text as it stands, so keys agree only for equal difficulty and equal
  text; a call with the same text and another difficulty therefore misses the cache and
  makes a second remote call.
\<close>

theorem cache_correctness:
  assumes miss: "translationCache w (cacheKey d text) = None"
    and key: "apiKeyAt e (storageReads w) = Some k" "k \<noteq> []"
    and answer: "fetchAt e (length (fetchCalls w)) k (getPromptForDifficulty text d) =
                   Response True (Data m (Content c))"
  shows "fst (translateText e text d w) = Inr (trim c) \<and>
         fetchCalls (snd (translateText e text d w)) = fetchCalls w @ [getPromptForDifficulty text d] \<and>
         translateText e text d (snd (translateText e text d w)) =
           (Inr (trim c), snd (translateText e text d w)) \<and>
         (\<forall>w0 v. translationCache w0 (cacheKey d text) = Some v \<longrightarrow>
                 translateText e text d w0 = (Inr v, w0)) \<and>
         cacheKey d text = numberToString d @ '':'' @ text \<and>
         (\<forall>d' text'. (cacheKey d' text' = cacheKey d text) = (d' = d \<and> text' = text)) \<and>
         (\<forall>d' k'. d' \<noteq> d \<and> translationCache w (cacheKey d' text) = None \<and>
                  apiKeyAt e (storageReads (snd (translateText e text d w))) = Some k' \<and> k' \<noteq> [] \<longrightarrow>
            fetchCalls (snd (translateText e text d' (snd (translateText e text d w)))) =
              fetchCalls w @ [getPromptForDifficulty text d, getPromptForDifficulty text d'])"
proof -
  let ?p = "getPromptForDifficulty text d"
  let ?w' = "w\<lparr>storageReads := storageReads w + 1, fetchCalls := fetchCalls w @ [?p]\<rparr>"
  let ?w1 = "?w'\<lparr>translationCache := (translationCache ?w')(cacheKey d text \<mapsto> trim c)\<rparr>"
  have first: "translateText e text d w = (Inr (trim c), ?w1)"
    using translateText_miss_success[OF miss requestTranslation_success[OF key answer]] .
  have cached: "translationCache ?w1 (cacheKey d text) = Some (trim c)" by simp
  have second: "translateText e text d ?w1 = (Inr (trim c), ?w1)"
    using translateText_hit[OF cached] .
  have other: "fetchCalls (snd (translateText e text d' ?w1)) =
      fetchCalls w @ [?p, getPromptForDifficulty text d']"
    if "d' \<noteq> d" "translationCache w (cacheKey d' text) = None"
       "apiKeyAt e (storageReads ?w1) = Some k'" "k' \<noteq> []" for d' k'
  proof -
    have "cacheKey d' text \<noteq> cacheKey d text" using that(1) by (simp add: cacheKey_inj)
    then have "translationCache ?w1 (cacheKey d' text) = None" using that(2) by simp
    from translateText_miss_fetches(1)[OF this that(3,4)] show ?thesis by simp
  qed
  show ?thesis
    unfolding first using second other
    by (simp add: translateText_hit cacheKey_inj) (simp add: cacheKey_def)
qed

theorem cache_correctness_witness:
  "fst (translateText steadyEnv ''Hello world'' 1 emptyWorld) = Inr ''Hola mundo'' \<and>
   translateText steadyEnv ''Hello world'' 1 (snd (translateText steadyEnv ''Hello world'' 1 emptyWorld)) =
     (Inr ''Hola mundo'', snd (translateText steadyEnv ''Hello world'' 1 emptyWorld)) \<and>
   fetchCalls (snd (translateText steadyEnv ''Hello world'' 1 emptyWorld)) =
     [getPromptForDifficulty ''Hello world'' 1] \<and>
   fetchCalls (snd (translateText steadyEnv ''Hello world'' 2
                      (snd (translateText steadyEnv ''Hello world'' 1 emptyWorld)))) =
     [getPromptForDifficulty ''Hello world'' 1, getPromptForDifficulty ''Hello world'' 2]"
proof -
  have miss: "translationCache emptyWorld (cacheKey 1 ''Hello world'') = None"
    by (simp add: emptyWorld_def)
  have key: "apiKeyAt steadyEnv (storageReads emptyWorld) = Some ''sk-test''" "''sk-test'' \<noteq> []"
    by (simp_all add: steadyEnv_def)
  have answer: "fetchAt steadyEnv (length (fetchCalls emptyWorld)) ''sk-test''
      (getPromptForDifficulty ''Hello world'' 1) = Response True (Data None (Content ''  Hola mundo ''))"
    by (simp add: steadyEnv_def)
  have tr: "trim ''  Hola mundo '' = ''Hola mundo''"
    by (simp add: trim_def isWhiteSpace_def)
  note c = cache_correctness[OF miss key answer, unfolded tr]
  have miss2: "translationCache emptyWorld (cacheKey 2 ''Hello world'') = None"
    by (simp add: emptyWorld_def)
  have key2: "apiKeyAt steadyEnv (storageReads (snd (translateText steadyEnv ''Hello world'' 1 emptyWorld))) =
      Some ''sk-test''"
    by (simp add: steadyEnv_def)
  have e: "fetchCalls emptyWorld = []" by (simp add: emptyWorld_def)
  have "fetchCalls (snd (translateText steadyEnv ''Hello world'' 2
                      (snd (translateText steadyEnv ''Hello world'' 1 emptyWorld)))) =
     fetchCalls emptyWorld @ [getPromptForDifficulty ''Hello world'' 1, getPromptForDifficulty ''Hello world'' 2]"
    using c miss2 key2 key(2) by (metis numeral_eq_one_iff semiring_norm(85))
  then show ?thesis using c e by simp
qed

text \<open>
  C3. On a cache miss, when the request throws (the credential is missing or empty, the
  \<open>fetch\<close> rejects, the body cannot be read, the response is not a success, or the
  completion text is missing), \<open>translateText\<close> returns the original text, shows
  the failure to the user, and leaves the cache as it was; the next call with the same
  arguments misses the cache again, reads the credential again and, when one is stored
  then, calls the service again.
\<close>

theorem failure_fallback:
  assumes miss: "translationCache w (cacheKey d text) = None"
    and fail: "fst (requestTranslation e (getPromptForDifficulty text d) w) = Inl err"
  shows "fst (translateText e text d w) = Inr text \<and>
         translationCache (snd (translateText e text d w)) = translationCache w \<and>
         notifications (snd (translateText e text d w)) =
           notifications w @ [''Translation failed: '' @ message err] \<and>
         storageReads (snd (translateText e text d w)) = storageReads w + 1 \<and>
         storageReads (snd (translateText e text d (snd (translateText e text d w)))) = storageReads w + 2 \<and>
         (\<forall>k. apiKeyAt e (storageReads w + 1) = Some k \<and> k \<noteq> [] \<longrightarrow>
            fetchCalls (snd (translateText e text d (snd (translateText e text d w)))) =
              fetchCalls (snd (translateText e text d w)) @ [getPromptForDifficulty text d]) \<and>
         (\<forall>p. apiKeyAt e (storageReads w) = None \<or> apiKeyAt e (storageReads w) = Some [] \<longrightarrow>
            fst (requestTranslation e p w) = Inl keyMissing \<and>
            fetchCalls (snd (requestTranslation e p w)) = fetchCalls w) \<and>
         (\<forall>p k. apiKeyAt e (storageReads w) = Some k \<and> k \<noteq> [] \<longrightarrow>
            (\<forall>x. fetchAt e (length (fetchCalls w)) k p = Rejected x \<longrightarrow>
                 fst (requestTranslation e p w) = Inl x) \<and>
            (\<forall>ok x. fetchAt e (length (fetchCalls w)) k p = Response ok (Unreadable x) \<longrightarrow>
                 fst (requestTranslation e p w) = Inl x) \<and>
            (\<forall>m c. fetchAt e (length (fetchCalls w)) k p = Response False (Data m c) \<longrightarrow>
                 fst (requestTranslation e p w) = Inl (Error (failureMessage m))) \<and>
            (\<forall>m x. fetchAt e (length (fetchCalls w)) k p = Response True (Data m (Missing x)) \<longrightarrow>
                 fst (requestTranslation e p w) = Inl x))"
proof -
  let ?p = "getPromptForDifficulty text d"
  obtain w' where req: "requestTranslation e ?p w = (Inl err, w')"
    using fail by (cases "requestTranslation e ?p w") auto
  have eff: "storageReads w' = storageReads w + 1" "translationCache w' = translationCache w"
    "notifications w' = notifications w"
    using requestTranslation_effects[of e ?p w] req by simp_all
  let ?w1 = "showNotification (''Translation failed: '' @ message err) w'"
  have first: "translateText e text d w = (Inr text, ?w1)"
    using translateText_miss_failure[OF miss req] .
  have w1: "storageReads ?w1 = storageReads w + 1" "translationCache ?w1 = translationCache w"
    "notifications ?w1 = notifications w @ [''Translation failed: '' @ message err]"
    using eff by (simp_all add: showNotification_def)
  have miss1: "translationCache ?w1 (cacheKey d text) = None" using w1(2) miss by simp
  obtain r2 w2 where req2: "requestTranslation e ?p ?w1 = (r2, w2)"
    by (cases "requestTranslation e ?p ?w1")
  have again: "storageReads (snd (translateText e text d ?w1)) = storageReads w + 2"
    using requestTranslation_effects[of e ?p ?w1] req2 w1(1) miss1
    by (cases r2) (simp_all add: translateText_def showNotification_def)
  have refetch: "fetchCalls (snd (translateText e text d ?w1)) = fetchCalls ?w1 @ [?p]"
    if "apiKeyAt e (storageReads w + 1) = Some k" "k \<noteq> []" for k
    using translateText_miss_fetches(1)[OF miss1, of e k] that w1(1) by simp
  have modes1: "fst (requestTranslation e p w) = Inl keyMissing \<and>
            fetchCalls (snd (requestTranslation e p w)) = fetchCalls w"
    if "apiKeyAt e (storageReads w) = None \<or> apiKeyAt e (storageReads w) = Some []" for p
    using that by (auto simp: requestTranslation_def Let_def)
  have modes2: "(\<forall>x. fetchAt e (length (fetchCalls w)) k p = Rejected x \<longrightarrow>
                 fst (requestTranslation e p w) = Inl x) \<and>
            (\<forall>ok x. fetchAt e (length (fetchCalls w)) k p = Response ok (Unreadable x) \<longrightarrow>
                 fst (requestTranslation e p w) = Inl x) \<and>
            (\<forall>m c. fetchAt e (length (fetchCalls w)) k p = Response False (Data m c) \<longrightarrow>
                 fst (requestTranslation e p w) = Inl (Error (failureMessage m))) \<and>
            (\<forall>m x. fetchAt e (length (fetchCalls w)) k p = Response True (Data m (Missing x)) \<longrightarrow>
                 fst (requestTranslation e p w) = Inl x)"
    if "apiKeyAt e (storageReads w) = Some k" "k \<noteq> []" for p k
    using that by (simp add: requestTranslation_def readCompletion_def Let_def)
  show ?thesis
    unfolding first using w1 again refetch modes1 modes2 by (simp del: append.simps) 
qed

theorem failure_fallback_witness:
  "translateText flakyEnv ''Hello'' 5 emptyWorld =
     (Inr ''Hello'',
      emptyWorld\<lparr>storageReads := 1,
                 notifications := [''Translation failed: OpenAI API key not configured. Please set it in the extension options.'']\<rparr>) \<and>
   translationCache (snd (translateText flakyEnv ''Hello'' 5 emptyWorld)) (cacheKey 5 ''Hello'') = None \<and>
   fetchCalls (snd (translateText flakyEnv ''Hello'' 5 (snd (translateText flakyEnv ''Hello'' 5 emptyWorld)))) =
     [getPromptForDifficulty ''Hello'' 5] \<and>
   fst (translateText flakyEnv ''Hello'' 5 (snd (translateText flakyEnv ''Hello'' 5 emptyWorld))) =
     Inr ''Hello'' \<and>
   notifications (snd (translateText flakyEnv ''Hello'' 5 (snd (translateText flakyEnv ''Hello'' 5 emptyWorld)))) =
     [''Translation failed: OpenAI API key not configured. Please set it in the extension options.'',
      ''Translation failed: API Error''] \<and>
   fst (translateText flakyEnv ''Hello'' 5
          (snd (translateText flakyEnv ''Hello'' 5 (snd (translateText flakyEnv ''Hello'' 5 emptyWorld))))) =
     Inr ''Hola''"
proof -
  have miss: "translationCache emptyWorld (cacheKey 5 ''Hello'') = None"
    by (simp add: emptyWorld_def)
  have fail: "fst (requestTranslation flakyEnv (getPromptForDifficulty ''Hello'' 5) emptyWorld) = Inl keyMissing"
    by (simp add: requestTranslation_def flakyEnv_def emptyWorld_def)
  note f = failure_fallback[OF miss fail]
  have key: "apiKeyAt flakyEnv (storageReads emptyWorld + 1) = Some ''sk-test''"
    by (simp add: flakyEnv_def)
  have first: "translateText flakyEnv ''Hello'' 5 emptyWorld =
     (Inr ''Hello'',
      emptyWorld\<lparr>storageReads := 1,
                 notifications := [''Translation failed: OpenAI API key not configured. Please set it in the extension options.'']\<rparr>)"
    by (simp add: translateText_def requestTranslation_def flakyEnv_def emptyWorld_def
        showNotification_def keyMissing_def cacheKey_def)
  have "fetchCalls (snd (translateText flakyEnv ''Hello'' 5 (snd (translateText flakyEnv ''Hello'' 5 emptyWorld)))) =
     fetchCalls (snd (translateText flakyEnv ''Hello'' 5 emptyWorld)) @ [getPromptForDifficulty ''Hello'' 5]"
    using f key by blast
  moreover have "fetchCalls (snd (translateText flakyEnv ''Hello'' 5 emptyWorld)) = []"
    by (simp add: first) (simp add: emptyWorld_def)
  moreover have "translationCache (snd (translateText flakyEnv ''Hello'' 5 emptyWorld)) (cacheKey 5 ''Hello'') = None"
    using f miss by simp
  moreover have "fst (translateText flakyEnv ''Hello'' 5 (snd (translateText flakyEnv ''Hello'' 5 emptyWorld))) =
     Inr ''Hello''"
    "notifications (snd (translateText flakyEnv ''Hello'' 5 (snd (translateText flakyEnv ''Hello'' 5 emptyWorld)))) =
     [''Translation failed: OpenAI API key not configured. Please set it in the extension options.'',
      ''Translation failed: API Error'']"
    "fst (translateText flakyEnv ''Hello'' 5
          (snd (translateText flakyEnv ''Hello'' 5 (snd (translateText flakyEnv ''Hello'' 5 emptyWorld))))) =
     Inr ''Hola''"
    by code_simp+
  ultimately show ?thesis using first by simp
qed

section \<open>Properties of the orchestrator run with the client\<close>

lemma translateText_notifications:
  "\<exists>ns. notifications (snd (translateText e t d w)) = notifications w @ ns"
proof (cases "translationCache w (cacheKey d t)")
  case (Some cached)
  then show ?thesis by (simp add: translateText_hit)
next
  case None
  obtain r w1 where req: "requestTranslation e (getPromptForDifficulty t d) w = (r, w1)"
    by (cases "requestTranslation e (getPromptForDifficulty t d) w")
  have same: "notifications w1 = notifications w"
    using requestTranslation_effects[of e "getPromptForDifficulty t d" w] req by simp
  show ?thesis
  proof (cases r)
    case (Inl err)
    then show ?thesis
      using translateText_miss_failure[OF None, of e err w1] req same
      by (simp add: showNotification_def)
  next
    case (Inr x)
    then show ?thesis
      using translateText_miss_success[OF None, of e x w1] req same by simp
  qed
qed

lemma run_notifications:
  "\<exists>ns. notifications (finalWorld (translateBatches (translateText e) d i store w)) =
          notifications w @ ns"
proof (induction "length store - i" arbitrary: i store w rule: less_induct)
  case less
  show ?case
  proof (cases "i < length store")
    case False
    then show ?thesis by (simp add: translateBatches_done run_defs)
  next
    case True
    obtain t w' where step: "translateText e (batchText store i) d w = (Inr t, w')"
      using translateText_returns by blast
    note u = run_unfold[where tr = "translateText e", OF True step]
    obtain ns where ns: "notifications w' = notifications w @ ns"
      using translateText_notifications[of e "batchText store i" d w] step by auto
    obtain ms where
      "notifications (finalWorld (translateBatches (translateText e) d (i + batchSize)
          (updateBatch (batchAt store i) (split t separator) store) w')) = notifications w' @ ms"
      using less.hyps[OF step_measure[OF True, of "batchAt store i" "split t separator"], of w']
      by auto
    then show ?thesis using ns by (simp add: u(3))
  qed
qed

lemma splitFrom_plain:
  "CHR 0x0A \<notin> set x \<Longrightarrow> splitFrom separator acc x = [rev acc @ x]"
  by (induction x arbitrary: acc) (auto simp: separator_def)

lemma splitFrom_joint:
  "CHR 0x0A \<notin> set x \<Longrightarrow>
   splitFrom separator acc (x @ separator @ rest) = (rev acc @ x) # splitFrom separator [] rest"
  by (induction x arbitrary: acc) (auto simp: separator_def)

lemma split_join_separator:
  assumes "xs \<noteq> []" "\<forall>x \<in> set xs. CHR 0x0A \<notin> set x"
  shows "split (join separator xs) separator = xs"
proof -
  have "splitFrom separator [] (join separator xs) = xs"
    using assms
  proof (induction xs)
    case Nil
    then show ?case by simp
  next
    case (Cons x xs)
    show ?case
    proof (cases xs)
      case Nil
      then show ?thesis using Cons.prems splitFrom_plain[of x "[]"] by simp
    next
      case (Cons y ys)
      then have "splitFrom separator [] (join separator xs) = xs"
        using Cons.IH Cons.prems by simp
      then show ?thesis
        using Cons Cons.prems splitFrom_joint[of x "[]" "join separator xs"] by simp
    qed
  qed
  then show ?thesis by (simp add: split_def separator_def)
qed

text \<open>
  The \<open>catch\<close> of the loop, for a translator that throws: the run ends at the failing
  batch, the units from that batch on have their text and the earlier ones keep what
  they received.
\<close>

lemma thrown_error_aborts:
  assumes "runStatus (translateBatches tr d 0 units w) = Aborted err"
  shows "\<exists>k. length (translatorCalls (translateBatches tr d 0 units w)) = Suc k \<and>
           snd (translatorCalls (translateBatches tr d 0 units w) ! k) = Inl err \<and>
           batchSize * k < length units \<and>
           (\<forall>j < length units. batchSize * k \<le> j \<longrightarrow>
              finalTexts (translateBatches tr d 0 units w) ! j = units ! j) \<and>
           (\<forall>j < batchSize * k. \<exists>t.
              snd (translatorCalls (translateBatches tr d 0 units w) ! (j div batchSize)) = Inr t \<and>
              finalTexts (translateBatches tr d 0 units w) ! j =
                (if j mod batchSize < length (split t separator) \<and>
                    split t separator ! (j mod batchSize) \<noteq> []
                 then split t separator ! (j mod batchSize) else units ! j)) \<and>
           last (notifications (finalWorld (translateBatches tr d 0 units w))) =
             ''Translation error: '' @ message err"
proof -
  let ?r = "translateBatches tr d 0 units w"
  let ?calls = "translatorCalls ?r"
  have ne: "?calls \<noteq> []"
    and lst: "snd (last ?calls) = Inl err"
    and others: "\<And>m. Suc m < length ?calls \<Longrightarrow> \<exists>t. snd (?calls ! m) = Inr t"
    and shown: "last (notifications (finalWorld ?r)) = ''Translation error: '' @ message err"
    using aborted_calls[OF assms] by blast+
  from ne obtain k where k: "length ?calls = Suc k"
    by (cases ?calls) auto
  have "last ?calls = ?calls ! k"
    using ne k by (simp add: last_conv_nth)
  then have lastk: "snd (?calls ! k) = Inl err"
    using lst by simp
  have inr: "\<exists>t. snd (?calls ! m) = Inr t" if "m < k" for m
    using others[of m] that k by simp
  have "k < (length units + (batchSize - 1)) div batchSize"
    using calls_bound[of tr d 0 units w] k by simp
  then have bound: "batchSize * k < length units" by (rule ceil_gt_mult)
  have after: "finalTexts ?r ! j = units ! j" if "j < length units" "batchSize * k \<le> j" for j
  proof -
    have "k \<le> j div batchSize"
      using that(2) by (simp add: batchSize_def) 
    then show ?thesis
      using finalTexts_from[of 0 j units tr d w] that(1) k lastk
      by (cases "j div batchSize = k") (simp_all add: Let_def)
  qed
  have before: "\<exists>t. snd (?calls ! (j div batchSize)) = Inr t \<and>
      finalTexts ?r ! j =
        (if j mod batchSize < length (split t separator) \<and> split t separator ! (j mod batchSize) \<noteq> []
         then split t separator ! (j mod batchSize) else units ! j)" if "j < batchSize * k" for j
  proof -
    have m: "j div batchSize < k" using that by (simp add: batchSize_def)
    then obtain t where t: "snd (?calls ! (j div batchSize)) = Inr t" using inr by blast
    have "j < length units" using that bound by simp
    then show ?thesis
      using finalTexts_from[of 0 j units tr d w] m k t
      by (simp add: Let_def partFor_def)
  qed
  show ?thesis using k lastk bound after before shown by blast
qed

section \<open>Claims about the orchestrator run with the client\<close>

text \<open>
  C4 (as stated, refuted). The service refuses the request for the second of three
  batches. \<open>translateText\<close> catches the error it throws, shows it and returns the text it
  was given, so the loop is not left: the run completes, three requests are sent, the
  units of the second batch have their text, and the units of the third batch, which
  had not been processed when the error was thrown, are translated.
\<close>

theorem failed_batch_counterexample:
  "runStatus (translateBatches (translateText refusingEnv) 5 0 twelveUnits emptyWorld) = Completed \<and>
   notifications (finalWorld (translateBatches (translateText refusingEnv) 5 0 twelveUnits emptyWorld)) =
     [''Translation failed: API Error''] \<and>
   length (fetchCalls (finalWorld (translateBatches (translateText refusingEnv) 5 0 twelveUnits emptyWorld))) = 3 \<and>
   map snd (translatorCalls (translateBatches (translateText refusingEnv) 5 0 twelveUnits emptyWorld)) =
     [Inr (join separator [''a1'', ''a2'', ''a3'', ''a4'', ''a5'']),
      Inr (join separator [''unit 6'', ''unit 7'', ''unit 8'', ''unit 9'', ''unit 10'']),
      Inr (join separator [''c1'', ''c2''])] \<and>
   twelveUnits ! 10 = ''unit 11'' \<and>
   finalTexts (translateBatches (translateText refusingEnv) 5 0 twelveUnits emptyWorld) =
     [''a1'', ''a2'', ''a3'', ''a4'', ''a5'', ''unit 6'', ''unit 7'', ''unit 8'', ''unit 9'',
      ''unit 10'', ''c1'', ''c2'']"
  by code_simp

text \<open>
  C4 (amended). When the request for the batch at index \<open>i\<close> fails (the key is not in
  the cache and the request throws), the run from there on is not aborted: it completes
  and every remaining batch is sent to the translator, the answer for the failing batch
  being its own composite text; the failure is shown to the user; the units before
  \<open>i\<close> keep the text they have; each unit of the failing batch receives the part of the
  batch's own composite text at its position, which is its own trimmed text when no
  trimmed text of the batch contains a line feed (a unit whose trimmed text is empty
  keeps its text); and each later unit receives the part of its own batch's answer.
\<close>

theorem failed_batch_continues:
  assumes "i < length store"
    and "translationCache w (cacheKey d (batchText store i)) = None"
    and "fst (requestTranslation e (getPromptForDifficulty (batchText store i) d) w) = Inl err"
  shows "(let r = translateBatches (translateText e) d i store w in
          runStatus r = Completed \<and>
          length (translatorCalls r) = (length store - i + (batchSize - 1)) div batchSize \<and>
          translatorCalls r ! 0 = (batchAt store i, Inr (batchText store i)) \<and>
          (''Translation failed: '' @ message err) \<in> set (notifications (finalWorld r)) \<and>
          (\<forall>j < i. finalTexts r ! j = store ! j) \<and>
          (\<forall>j. i \<le> j \<and> j < i + batchSize \<and> j < length store \<longrightarrow>
             finalTexts r ! j =
               partFor (split (batchText store i) separator) (j - i) (store ! j)) \<and>
          ((\<forall>j. i \<le> j \<and> j < i + batchSize \<and> j < length store \<longrightarrow>
              CHR 0x0A \<notin> set (trim (store ! j))) \<longrightarrow>
           (\<forall>j. i \<le> j \<and> j < i + batchSize \<and> j < length store \<longrightarrow>
              finalTexts r ! j = (if trim (store ! j) = [] then store ! j else trim (store ! j)))) \<and>
          (\<forall>j. i + batchSize \<le> j \<and> j < length store \<longrightarrow>
             (\<exists>t. snd (translatorCalls r ! ((j - i) div batchSize)) = Inr t \<and>
                  finalTexts r ! j =
                    partFor (split t separator) ((j - i) mod batchSize) (store ! j))))"
proof -
  let ?r = "translateBatches (translateText e) d i store w"
  let ?calls = "translatorCalls ?r"
  obtain w1 where
    req: "requestTranslation e (getPromptForDifficulty (batchText store i) d) w = (Inl err, w1)"
    using assms(3) by (cases "requestTranslation e (getPromptForDifficulty (batchText store i) d) w") auto
  let ?w2 = "showNotification (''Translation failed: '' @ message err) w1"
  have call: "translateText e (batchText store i) d w = (Inr (batchText store i), ?w2)"
    using translateText_miss_failure[OF assms(2) req] .
  note u = run_unfold[where tr = "translateText e", OF assms(1) call]
  have status: "runStatus ?r = Completed"
    by (rule never_throws_completes) (rule translateText_returns)
  have len: "length ?calls = (length store - i + (batchSize - 1)) div batchSize"
    and inr: "\<And>m. m < length ?calls \<Longrightarrow> \<exists>t. snd (?calls ! m) = Inr t"
    using completed_calls[OF status] by blast+
  have first: "?calls ! 0 = (batchAt store i, Inr (batchText store i))"
    by (simp add: u(4))
  have pos: "0 < length ?calls" by (simp add: u(4))
  have shown: "(''Translation failed: '' @ message err) \<in> set (notifications (finalWorld ?r))"
  proof -
    obtain ns where
      "notifications (finalWorld (translateBatches (translateText e) d (i + batchSize)
          (updateBatch (batchAt store i) (split (batchText store i) separator) store) ?w2)) =
       notifications ?w2 @ ns"
      using run_notifications by blast
    then show ?thesis by (simp add: u(3) showNotification_def)
  qed
  have before: "finalTexts ?r ! j = store ! j" if "j < i" for j
    using finalTexts_before[OF that, of store "translateText e" d w] that assms(1) by simp
  have own: "finalTexts ?r ! j = partFor (split (batchText store i) separator) (j - i) (store ! j)"
    if "i \<le> j" "j < i + batchSize" "j < length store" for j
  proof -
    have "j - i < batchSize" using that(1,2) by simp
    then have "(j - i) div batchSize = 0" "(j - i) mod batchSize = j - i" by simp_all
    then show ?thesis
      using finalTexts_from[OF that(1) that(3), of "translateText e" d w] pos first
      by (simp add: Let_def)
  qed
  have plain: "finalTexts ?r ! j = (if trim (store ! j) = [] then store ! j else trim (store ! j))"
    if nl: "\<forall>j. i \<le> j \<and> j < i + batchSize \<and> j < length store \<longrightarrow> CHR 0x0A \<notin> set (trim (store ! j))"
      and j: "i \<le> j" "j < i + batchSize" "j < length store" for j
  proof -
    let ?parts = "map (\<lambda>node. trim (store ! node)) (batchAt store i)"
    have batch: "batchAt store i = [i ..< min (i + batchSize) (length store)]"
      by (simp add: batchAt_def sliceNodes_eq)
    have ne: "?parts \<noteq> []" using assms(1) by (auto simp: batch batchSize_def min_def)
    have "\<forall>x \<in> set ?parts. CHR 0x0A \<notin> set x" using nl by (auto simp: batch)
    then have parts: "split (batchText store i) separator = ?parts"
      using split_join_separator[OF ne] by (simp add: batchText_def)
    have lt: "j < min (i + batchSize) (length store)" using j(2,3) by simp
    have k: "j - i < length (batchAt store i)"
      using diff_less_mono[OF lt j(1)] by (simp add: batch)
    have "[i ..< min (i + batchSize) (length store)] ! (j - i) = i + (j - i)"
      by (rule nth_upt) (use j(1) lt in simp)
    then have node: "batchAt store i ! (j - i) = j" using j(1) by (simp add: batch)
    have "?parts ! (j - i) = trim (store ! j)" using k node by simp
    then show ?thesis using own[OF j] k by (simp add: parts partFor_def)
  qed
  have later: "\<exists>t. snd (?calls ! ((j - i) div batchSize)) = Inr t \<and>
      finalTexts ?r ! j = partFor (split t separator) ((j - i) mod batchSize) (store ! j)"
    if "i + batchSize \<le> j" "j < length store" for j
  proof -
    have ij: "i \<le> j" using that(1) by simp
    then have "j - i < length store - i" using that(2) by simp
    then have k: "(j - i) div batchSize < length ?calls"
      unfolding len by (rule div_lt_ceil)
    then obtain t where t: "snd (?calls ! ((j - i) div batchSize)) = Inr t" using inr by blast
    show ?thesis
      using finalTexts_from[OF ij that(2), of "translateText e" d w] k t
      by (simp add: Let_def)
  qed
  show ?thesis
    unfolding Let_def using status len first shown before own plain later by blast
qed

theorem failed_batch_continues_witness:
  "translationCache (snd (translateText refusingEnv (batchText twelveUnits 0) 5 emptyWorld))
     (cacheKey 5 (batchText afterFirstBatch 5)) = None \<and>
   fst (requestTranslation refusingEnv (getPromptForDifficulty (batchText afterFirstBatch 5) 5)
         (snd (translateText refusingEnv (batchText twelveUnits 0) 5 emptyWorld))) =
     Inl (Error ''API Error'') \<and>
   runStatus (translateBatches (translateText refusingEnv) 5 5 afterFirstBatch
     (snd (translateText refusingEnv (batchText twelveUnits 0) 5 emptyWorld))) = Completed \<and>
   length (translatorCalls (translateBatches (translateText refusingEnv) 5 5 afterFirstBatch
     (snd (translateText refusingEnv (batchText twelveUnits 0) 5 emptyWorld)))) = 2 \<and>
   ''Translation failed: API Error'' \<in> set (notifications (finalWorld
     (translateBatches (translateText refusingEnv) 5 5 afterFirstBatch
       (snd (translateText refusingEnv (batchText twelveUnits 0) 5 emptyWorld))))) \<and>
   finalTexts (translateBatches (translateText refusingEnv) 5 5 afterFirstBatch
     (snd (translateText refusingEnv (batchText twelveUnits 0) 5 emptyWorld))) =
     [''a1'', ''a2'', ''a3'', ''a4'', ''a5'', ''unit 6'', ''unit 7'', ''unit 8'', ''unit 9'',
      ''unit 10'', ''c1'', ''c2'']"
proof -
  let ?w = "snd (translateText refusingEnv (batchText twelveUnits 0) 5 emptyWorld)"
  have live: "5 < length afterFirstBatch" by (simp add: afterFirstBatch_def)
  have miss: "translationCache ?w (cacheKey 5 (batchText afterFirstBatch 5)) = None"
    by code_simp
  have fails: "fst (requestTranslation refusingEnv
      (getPromptForDifficulty (batchText afterFirstBatch 5) 5) ?w) = Inl (Error ''API Error'')"
    by code_simp
  have texts: "finalTexts (translateBatches (translateText refusingEnv) 5 5 afterFirstBatch ?w) =
     [''a1'', ''a2'', ''a3'', ''a4'', ''a5'', ''unit 6'', ''unit 7'', ''unit 8'', ''unit 9'',
      ''unit 10'', ''c1'', ''c2'']"
    by code_simp
  have "(length afterFirstBatch - 5 + (batchSize - 1)) div batchSize = 2"
    by (simp add: afterFirstBatch_def batchSize_def)
  then show ?thesis
    using failed_batch_continues[OF live miss fails] miss fails texts
    by (simp add: Let_def)
qed

section \<open>Properties of the extractor\<close>

lemma descendants_trans:
  "m \<in> set (descendants r) \<Longrightarrow> n \<in> set (descendants m) \<Longrightarrow> n \<in> set (descendants r)"
proof (induction r)
  case (Text s)
  then show ?case by simp
next
  case (Element t as cs)
  from Element.prems(1) obtain c where c: "c \<in> set cs" "m = c \<or> m \<in> set (descendants c)"
    by auto
  then have "n \<in> set (descendants c)"
    using Element.IH[of c] Element.prems(2) by auto
  then show ?case using c(1) by auto
qed

lemma descendants_prune:
  "n \<in> set (descendants (prune P r)) \<Longrightarrow> \<exists>m \<in> set (descendants r). \<not> P m \<and> n = prune P m"
proof (induction r)
  case (Text s)
  then show ?case by simp
next
  case (Element t as cs)
  from Element.prems obtain c where c: "c \<in> set cs" "\<not> P c"
    "n = prune P c \<or> n \<in> set (descendants (prune P c))"
    by auto
  show ?case
  proof (cases "n = prune P c")
    case True
    then show ?thesis using c by auto
  next
    case False
    then obtain m where "m \<in> set (descendants c)" "\<not> P m" "n = prune P m"
      using c Element.IH[of c] by auto
    then show ?thesis using c(1) by auto
  qed
qed

lemma matches_prune [simp]: "matches sels (prune P n) = matches sels n"
  by (cases n) simp_all

lemma matches_iff: "matches sels n \<longleftrightarrow> (\<exists>s \<in> set sels. matches [s] n)"
  by (cases n) (auto simp: list_ex_iff)

lemma prune_removes:
  "n \<in> set (descendants (prune (matches sels) r)) \<Longrightarrow> \<not> matches sels n"
  using descendants_prune[of n "matches sels" r] by auto

lemma prune_keeps_clean:
  assumes "\<forall>n \<in> set (descendants r). \<not> matches sels n"
    and "n \<in> set (descendants (prune P r))"
  shows "\<not> matches sels n"
  using descendants_prune[OF assms(2)] assms(1) by auto

lemma prune_root_matches [simp]: "matches sels (prune P r) = matches sels r"
  by simp

lemma fold_prune_clean:
  assumes "\<forall>n \<in> set (descendants r). \<forall>s \<in> S. \<not> matches [s] n"
  shows "\<forall>n \<in> set (descendants (foldl (\<lambda>t selector. prune (matches [selector]) t) r sels)).
           \<forall>s \<in> S \<union> set sels. \<not> matches [s] n"
  using assms
proof (induction sels arbitrary: r S)
  case Nil
  then show ?case by simp
next
  case (Cons a sels)
  have "\<forall>n \<in> set (descendants (prune (matches [a]) r)). \<forall>s \<in> insert a S. \<not> matches [s] n"
  proof (intro ballI)
    fix n s assume n: "n \<in> set (descendants (prune (matches [a]) r))" and s: "s \<in> insert a S"
    show "\<not> matches [s] n"
    proof (cases "s = a")
      case True
      then show ?thesis using prune_removes[OF n] by simp
    next
      case False
      then have "s \<in> S" using s by simp
      then have "\<forall>n \<in> set (descendants r). \<not> matches [s] n" using Cons.prems by blast
      from prune_keeps_clean[OF this n] show ?thesis .
    qed
  qed
  from Cons.IH[OF this] show ?case by simp
qed

lemma removeUnwanted_clean:
  "n \<in> set (descendants (removeUnwanted temp)) \<Longrightarrow> \<not> matches unwantedSelectors n"
  using fold_prune_clean[of temp "{}" unwantedSelectors]
  by (subst matches_iff) (auto simp: removeUnwanted_def)

lemma fold_prune_root:
  "matches sels (foldl (\<lambda>t selector. prune (matches [selector]) t) r ss) = matches sels r"
  by (induction ss arbitrary: r) simp_all

lemma querySelector_descendant:
  "querySelector sels r = Some n \<Longrightarrow> n \<in> set (descendants r)"
  by (auto simp: querySelector_def find_Some_iff)

lemma findMain_descendant:
  assumes "findMain sels temp cur = Some n"
    and "\<And>m. cur = Some m \<Longrightarrow> m \<in> set (descendants temp)"
  shows "n \<in> set (descendants temp)"
  using assms
proof (induction sels arbitrary: cur)
  case Nil
  then show ?case by simp
next
  case (Cons a sels)
  show ?case
  proof (cases "querySelector [a] temp")
    case None
    then have "findMain sels temp None = Some n" using Cons.prems(1) by simp
    from Cons.IH[OF this] show ?thesis by simp
  next
    case (Some found)
    then have f: "found \<in> set (descendants temp)" by (rule querySelector_descendant)
    show ?thesis
    proof (cases "textLength found > 100")
      case True
      then show ?thesis using Cons.prems(1) Some f by simp
    next
      case False
      then have "findMain sels temp (Some found) = Some n" using Cons.prems(1) Some by simp
      from Cons.IH[OF this] f show ?thesis by simp
    qed
  qed
qed

lemma selectMain_cases:
  "selectMain temp = temp \<or> selectMain temp \<in> set (descendants temp)"
proof (cases "findMain mainSelectors temp None")
  case None
  then show ?thesis by (simp add: selectMain_def)
next
  case (Some n)
  then have "n \<in> set (descendants temp)" by (rule findMain_descendant) simp
  then show ?thesis using Some by (simp add: selectMain_def)
qed

lemma selectMain_descendants:
  "set (descendants (selectMain temp)) \<subseteq> set (descendants temp)"
  using selectMain_cases[of temp] descendants_trans by auto

lemma map_of_setAttribute:
  "map_of (setAttribute name v as) a = (if a = name then Some v else map_of as a)"
  by (induction name v as rule: setAttribute.induct) auto

lemma cleanLink_total: "\<exists>as'. cleanLink br as = Inr as'"
  by (simp add: cleanLink_def split: sum.splits)

lemma cleanLink_other_attributes:
  assumes "cleanLink br as = Inr as'" "a \<noteq> ''href''"
  shows "map_of as' a = map_of as a"
  using assms
  by (auto simp: cleanLink_def rewriteHref_def map_of_setAttribute split: if_splits sum.splits)

lemma matchesSelector_cong:
  assumes "selectorAttribute sel \<noteq> Some ''href''"
    and "\<And>a. a \<noteq> ''href'' \<Longrightarrow> map_of as' a = map_of as a"
  shows "matchesSelector sel t as' = matchesSelector sel t as"
  using assms by (cases sel) auto

lemma traverse_total:
  "(\<And>x. x \<in> set xs \<Longrightarrow> \<exists>y. f x = Inr y) \<Longrightarrow> \<exists>ys. traverse f xs = Inr ys"
proof (induction xs)
  case Nil
  then show ?case by simp
next
  case (Cons x xs)
  obtain y where "f x = Inr y" using Cons.prems by auto
  moreover obtain ys where "traverse f xs = Inr ys" using Cons by auto
  ultimately show ?case by simp
qed

lemma traverse_Inr:
  "traverse f xs = Inr ys \<Longrightarrow> list_all2 (\<lambda>x y. f x = Inr y) xs ys"
proof (induction xs arbitrary: ys)
  case Nil
  then show ?case by simp
next
  case (Cons x xs)
  then show ?case by (auto split: sum.splits)
qed

lemma list_all2_source:
  "list_all2 R xs ys \<Longrightarrow> y \<in> set ys \<Longrightarrow> \<exists>x \<in> set xs. R x y"
  by (induction rule: list_all2_induct) auto

lemma cleanLinks_total: "\<exists>n'. cleanLinks br n = Inr n'"
proof (induction n)
  case (Text s)
  then show ?case by simp
next
  case (Element t as cs)
  obtain as' where a: "(if t = ''a'' then cleanLink br as else Inr as) = Inr as'"
    using cleanLink_total[of br as] by (cases "t = ''a''") auto
  obtain cs' where c: "traverse (cleanLinks br) cs = Inr cs'"
    using traverse_total[of cs "cleanLinks br"] Element.IH by auto
  show ?case using a c by simp
qed

lemma contentRegion_total: "\<exists>region. contentRegion br body = Inr region"
proof -
  obtain links where
    "cleanLinksIn br (removeHidden (removeEmpty (selectMain (removeUnwanted (Element ''div'' [] [body]))))) = Inr links"
    unfolding cleanLinksIn_def using traverse_total[of _ "cleanLinks br"] cleanLinks_total by meson
  then show ?thesis by (simp add: contentRegion_def cleanedContent_def Let_def)
qed


lemma cleanLinks_matches:
  assumes "cleanLinks br n = Inr n'" "\<forall>s \<in> set sels. selectorAttribute s \<noteq> Some ''href''"
  shows "matches sels n' = matches sels n"
proof (cases n)
  case (Text s)
  then show ?thesis using assms by auto
next
  case (Element t as cs)
  then obtain as' cs' where n': "n' = Element t as' cs'"
    and as': "(if t = ''a'' then cleanLink br as else Inr as) = Inr as'"
    using assms(1) by (auto split: sum.splits if_splits)
  have "map_of as' a = map_of as a" if "a \<noteq> ''href''" for a
    using as' cleanLink_other_attributes[of br as as' a] that by (auto split: if_splits)
  then have "matchesSelector s t as' = matchesSelector s t as" if "s \<in> set sels" for s
    using matchesSelector_cong[of s as' as t] assms(2) that by blast
  then show ?thesis using Element n' by (auto simp: list_ex_iff)
qed

lemma descendants_cleanLinks:
  "cleanLinks br r = Inr r' \<Longrightarrow> n' \<in> set (descendants r') \<Longrightarrow>
   \<exists>n \<in> set (descendants r). cleanLinks br n = Inr n'"
proof (induction r arbitrary: r')
  case (Text s)
  then show ?case by auto
next
  case (Element t as cs)
  from Element.prems(1) obtain as' cs' where r': "r' = Element t as' cs'"
    and cs': "traverse (cleanLinks br) cs = Inr cs'"
    by (auto split: sum.splits if_splits)
  from Element.prems(2) r' obtain c' where c': "c' \<in> set cs'" "n' = c' \<or> n' \<in> set (descendants c')"
    by auto
  from list_all2_source[OF traverse_Inr[OF cs'] c'(1)]
  obtain c where c: "c \<in> set cs" "cleanLinks br c = Inr c'" by blast
  show ?case
  proof (cases "n' = c'")
    case True
    then show ?thesis using c by auto
  next
    case False
    then obtain n where "n \<in> set (descendants c)" "cleanLinks br n = Inr n'"
      using Element.IH[OF c(1) c(2)] c'(2) by auto
    then show ?thesis using c(1) by auto
  qed
qed

lemma descendants_cleanLinksIn:
  assumes "cleanLinksIn br r = Inr links" "n' \<in> set (descendants (withChildren r links))"
  shows "\<exists>n \<in> set (descendants r). cleanLinks br n = Inr n'"
proof (cases r)
  case (Text s)
  then show ?thesis using assms by simp
next
  case (Element t as cs)
  then have tr: "traverse (cleanLinks br) cs = Inr links" using assms(1) by (simp add: cleanLinksIn_def)
  from assms(2) Element obtain c' where c': "c' \<in> set links" "n' = c' \<or> n' \<in> set (descendants c')"
    by auto
  from list_all2_source[OF traverse_Inr[OF tr] c'(1)]
  obtain c where c: "c \<in> set cs" "cleanLinks br c = Inr c'" by blast
  show ?thesis
  proof (cases "n' = c'")
    case True
    then show ?thesis using c Element by auto
  next
    case False
    then obtain n where "n \<in> set (descendants c)" "cleanLinks br n = Inr n'"
      using descendants_cleanLinks[OF c(2)] c'(2) by auto
    then show ?thesis using c(1) Element by auto
  qed
qed

lemma noise_selectors_href_free:
  "\<forall>s \<in> set (unwantedSelectors @ hiddenSelectors). selectorAttribute s \<noteq> Some ''href''"
  by (simp add: unwantedSelectors_def hiddenSelectors_def)

lemma matches_append: "matches (xs @ ys) n = (matches xs n \<or> matches ys n)"
  by (cases n) simp_all

lemma trim_empty_iff: "trim s = [] \<longleftrightarrow> (\<forall>c \<in> set s. isWhiteSpace c)"
proof
  assume "trim s = []"
  then have "dropWhile isWhiteSpace (rev (dropWhile isWhiteSpace s)) = []"
    by (simp add: trim_def)
  then have all: "\<forall>c \<in> set (dropWhile isWhiteSpace s). isWhiteSpace c"
    by simp
  have "dropWhile isWhiteSpace s = []"
  proof (rule ccontr)
    assume ne: "dropWhile isWhiteSpace s \<noteq> []"
    then have "\<not> isWhiteSpace (hd (dropWhile isWhiteSpace s))" by (rule hd_dropWhile)
    moreover have "hd (dropWhile isWhiteSpace s) \<in> set (dropWhile isWhiteSpace s)"
      using ne by simp
    ultimately show False using all by blast
  qed
  then show "\<forall>c \<in> set s. isWhiteSpace c" by simp
next
  assume "\<forall>c \<in> set s. isWhiteSpace c"
  then have d: "dropWhile isWhiteSpace s = []" by simp
  show "trim s = []" unfolding trim_def d by simp
qed

lemma textContent_descendant:
  "m \<in> set (descendants r) \<Longrightarrow> set (textContent m) \<subseteq> set (textContent r)"
proof (induction r)
  case (Text s)
  then show ?case by simp
next
  case (Element t as cs)
  then obtain c where c: "c \<in> set cs" "m = c \<or> m \<in> set (descendants c)" by auto
  then have "set (textContent m) \<subseteq> set (textContent c)" using Element.IH[of c] by auto
  then show ?case using c(1) by auto
qed


lemma isElement_prune [simp]: "isElement (prune P n) = isElement n"
  by (cases n) simp_all


lemma isEmptyElement_descendant:
  assumes "isEmptyElement r" "m \<in> set (descendants r)" "isElement m"
  shows "isEmptyElement m"
proof -
  have "\<forall>c \<in> set (textContent m). isWhiteSpace c"
    using assms(1,2) textContent_descendant[of m r]
    by (auto simp: isEmptyElement_def trim_empty_iff)
  moreover have "\<forall>n \<in> set (descendants m). \<not> matches [Tag ''img''] n"
    using assms(1,2) descendants_trans[of m r]
    by (auto simp: isEmptyElement_def querySelector_def find_None_iff)
  ultimately show ?thesis using assms(3)
    by (simp add: isEmptyElement_def trim_empty_iff querySelector_def find_None_iff)
qed







lemma innerHTML_no_children: "childNodes r = [] \<Longrightarrow> innerHTML r = []"
  by (cases r) auto

lemma childNodes_withChildren: "isElement r \<Longrightarrow> childNodes (withChildren r cs) = cs"
  by (cases r) auto


lemma stripTracking_params:
  "searchParams (stripTracking u) =
     filter (\<lambda>(name, v). name \<notin> set paramsToRemove) (searchParams u)"
proof -
  have "searchParams (foldl (\<lambda>u param. deleteParam param u) u ps) =
      filter (\<lambda>(name, v). name \<notin> set ps) (searchParams u)" for ps
  proof (induction ps arbitrary: u)
    case Nil
    then show ?case by simp
  next
    case (Cons a ps)
    have "filter (\<lambda>(name, v). name \<notin> set ps) (filter (\<lambda>(name, v). name \<noteq> a) xs) =
        filter (\<lambda>(name, v). name \<notin> set (a # ps)) xs" for xs :: "(string \<times> string) list"
      by (induction xs) auto
    then show ?case using Cons[of "deleteParam a u"] by (simp add: deleteParam_def)
  qed
  then show ?thesis by (simp add: stripTracking_def)
qed

lemma stripTracking_removes:
  "name \<in> set paramsToRemove \<Longrightarrow> name \<notin> fst ` set (searchParams (stripTracking u))"
  by (auto simp: stripTracking_params)

lemma findMain_first_qualifying:
  assumes "\<forall>s \<in> set pre. \<forall>n. querySelector [s] temp = Some n \<longrightarrow> textLength n \<le> 100"
    and "querySelector [sel] temp = Some found" "100 < textLength found"
  shows "findMain (pre @ sel # rest) temp cur = Some found"
  using assms(1)
proof (induction pre arbitrary: cur)
  case Nil
  then show ?case using assms(2,3) by simp
next
  case (Cons a pre)
  then show ?case by (cases "querySelector [a] temp") auto
qed

lemma selectMain_first_qualifying:
  assumes "mainSelectors = pre @ sel # rest"
    and "\<forall>s \<in> set pre. \<forall>n. querySelector [s] temp = Some n \<longrightarrow> textLength n \<le> 100"
    and "querySelector [sel] temp = Some found" "100 < textLength found"
  shows "selectMain temp = found"
  using findMain_first_qualifying[OF assms(2,3,4), of rest None] assms(1,4)
  by (simp add: selectMain_def)



lemma stripTracking_eq:
  "stripTracking u =
     u\<lparr>searchParams := filter (\<lambda>(name, v). name \<notin> set paramsToRemove) (searchParams u)\<rparr>"
proof -
  have "foldl (\<lambda>u param. deleteParam param u) u ps =
      u\<lparr>searchParams := filter (\<lambda>(name, v). name \<notin> set ps) (searchParams u)\<rparr>" for ps
  proof (induction ps arbitrary: u)
    case Nil
    then show ?case by simp
  next
    case (Cons a ps)
    have "filter (\<lambda>(name, v). name \<notin> set ps) (filter (\<lambda>(name, v). name \<noteq> a) xs) =
        filter (\<lambda>(name, v). name \<notin> set (a # ps)) xs" for xs :: "(string \<times> string) list"
      by (induction xs) auto
    then show ?case using Cons[of "deleteParam a u"] by (simp add: deleteParam_def)
  qed
  then show ?thesis by (simp add: stripTracking_def)
qed

lemma list_all2_image:
  "list_all2 R xs ys \<Longrightarrow> x \<in> set xs \<Longrightarrow> \<exists>y \<in> set ys. R x y"
  by (induction rule: list_all2_induct) auto

lemma cleanLinks_image:
  "cleanLinks br r = Inr r' \<Longrightarrow> n \<in> set (descendants r) \<Longrightarrow>
   \<exists>n' \<in> set (descendants r'). cleanLinks br n = Inr n'"
proof (induction r arbitrary: r')
  case (Text s)
  then show ?case by auto
next
  case (Element t as cs)
  from Element.prems(1) obtain as' cs' where r': "r' = Element t as' cs'"
    and cs': "traverse (cleanLinks br) cs = Inr cs'"
    by (auto split: sum.splits if_splits)
  from Element.prems(2) obtain c where c: "c \<in> set cs" "n = c \<or> n \<in> set (descendants c)"
    by auto
  from list_all2_image[OF traverse_Inr[OF cs'] c(1)]
  obtain c' where c': "c' \<in> set cs'" "cleanLinks br c = Inr c'" by blast
  show ?case
  proof (cases "n = c")
    case True
    then show ?thesis using c' r' by auto
  next
    case False
    then obtain n' where "n' \<in> set (descendants c')" "cleanLinks br n = Inr n'"
      using Element.IH[OF c(1) c'(2)] c(2) by auto
    then show ?thesis using c'(1) r' by auto
  qed
qed

lemma cleanLinksIn_image:
  assumes "cleanLinksIn br r = Inr links" "n \<in> set (descendants r)"
  shows "\<exists>n' \<in> set (descendants (withChildren r links)). cleanLinks br n = Inr n'"
proof (cases r)
  case (Text s)
  then show ?thesis using assms by simp
next
  case (Element t as cs)
  then have tr: "traverse (cleanLinks br) cs = Inr links"
    using assms(1) by (simp add: cleanLinksIn_def)
  from assms(2) Element obtain c where c: "c \<in> set cs" "n = c \<or> n \<in> set (descendants c)"
    by auto
  from list_all2_image[OF traverse_Inr[OF tr] c(1)]
  obtain c' where c': "c' \<in> set links" "cleanLinks br c = Inr c'" by blast
  show ?thesis
  proof (cases "n = c")
    case True
    then show ?thesis using c' Element by auto
  next
    case False
    then obtain n' where "n' \<in> set (descendants c')" "cleanLinks br n = Inr n'"
      using cleanLinks_image[OF c'(2)] c(2) by auto
    then show ?thesis using c'(1) Element by auto
  qed
qed

lemma traverse_id: "(\<And>x. x \<in> set xs \<Longrightarrow> f x = Inr x) \<Longrightarrow> traverse f xs = Inr xs"
  by (induction xs) auto

lemma cleanLinks_no_links:
  "\<not> matches [Tag ''a''] r \<Longrightarrow> \<forall>n \<in> set (descendants r). \<not> matches [Tag ''a''] n \<Longrightarrow>
   cleanLinks br r = Inr r"
proof (induction r)
  case (Text s)
  then show ?case by simp
next
  case (Element t as cs)
  have "cleanLinks br c = Inr c" if "c \<in> set cs" for c
    using Element.IH[OF that] Element.prems(2) that by auto
  then have "traverse (cleanLinks br) cs = Inr cs" by (rule traverse_id)
  moreover have "t \<noteq> ''a''" using Element.prems(1) by simp
  ultimately show ?case by simp
qed

lemma contentRegion_no_links:
  assumes "list_all (\<lambda>n. \<not> matches [Tag ''a''] n) (descendants (cleanedContent body))"
  shows "contentRegion br body = Inr (cleanedContent body)"
proof (cases "cleanedContent body")
  case (Text s)
  then show ?thesis by (simp add: contentRegion_def cleanLinksIn_def)
next
  case (Element t as cs)
  have "cleanLinks br c = Inr c" if "c \<in> set cs" for c
  proof (rule cleanLinks_no_links)
    show "\<not> matches [Tag ''a''] c" using assms that Element by (auto simp: list_all_iff)
    show "\<forall>n \<in> set (descendants c). \<not> matches [Tag ''a''] n"
      using assms that Element by (auto simp: list_all_iff)
  qed
  then have "traverse (cleanLinks br) cs = Inr cs" by (rule traverse_id)
  then show ?thesis using Element by (simp add: contentRegion_def cleanLinksIn_def)
qed

lemma cleanLink_tracked:
  assumes "map_of as ''href'' = Some v" "resolveHref br v \<noteq> []"
    and "parseURL br (resolveHref br v) = Inr u"
  shows "cleanLink br as = Inr (setAttribute ''href'' (serializeURL br (stripTracking u)) as)"
  using assms by (simp add: cleanLink_def rewriteHref_def getHref_def)

section \<open>Claims about the extractor\<close>

text \<open>
  C5 (as stated, refuted). First, a form inside the article stays in the extracted
  region, and its text in the returned markup, although forms belong to the
  specification's noise-exclusion set: the list of selectors the extractor removes has no
  entry for forms (nor for \<open>nav\<close> and \<open>aside\<close> elements, nor for most of the listed
  substrings). Second, hidden elements are looked for only below the selected element,
  after the selection: a hidden article with enough text is selected and is itself the
  region, and an article inside a hidden block is selected with all its text, although
  every text of either page lies inside a hidden element.
\<close>

theorem noise_exclusion_counterexample:
  "contentRegion plainBrowser formPage =
     Inr (Element ''div'' []
       [Element ''body'' []
          [Element ''article'' []
             [Element ''p'' [] [Text ''A short story.''],
              Element ''form'' [(''action'', ''/subscribe'')] [Text ''Subscribe to our list'']]]]) \<and>
   matches specNoiseSelectors
     (Element ''form'' [(''action'', ''/subscribe'')] [Text ''Subscribe to our list'']) \<and>
   List.member
     (descendants (Element ''div'' []
       [Element ''body'' []
          [Element ''article'' []
             [Element ''p'' [] [Text ''A short story.''],
              Element ''form'' [(''action'', ''/subscribe'')] [Text ''Subscribe to our list'']]]]))
     (Element ''form'' [(''action'', ''/subscribe'')] [Text ''Subscribe to our list'']) \<and>
   extractMainContent plainBrowser (Some formPage) =
     Inr (''<body><article><p>A short story.</p><form action='' @ [CHR 0x22] @ ''/subscribe''
          @ [CHR 0x22] @ ''>Subscribe to our list</form></article></body>'') \<and>
   contentRegion plainBrowser hiddenRootPage =
     Inr (Element ''article'' [(''hidden'', [])]
            [Element ''p'' [] [Text (replicate 120 CHR ''h'')]]) \<and>
   matches specNoiseSelectors
     (Element ''article'' [(''hidden'', [])] [Element ''p'' [] [Text (replicate 120 CHR ''h'')]]) \<and>
   extractMainContent plainBrowser (Some hiddenRootPage) =
     Inr (''<p>'' @ replicate 120 CHR ''h'' @ ''</p>'') \<and>
   contentRegion plainBrowser hiddenAncestorPage =
     Inr (Element ''article'' [] [Element ''p'' [] [Text (replicate 120 CHR ''h'')]]) \<and>
   matches specNoiseSelectors
     (Element ''div'' [(''style'', ''display: none'')]
        [Element ''article'' [] [Element ''p'' [] [Text (replicate 120 CHR ''h'')]]]) \<and>
   childNodes hiddenAncestorPage =
     [Element ''div'' [(''style'', ''display: none'')]
        [Element ''article'' [] [Element ''p'' [] [Text (replicate 120 CHR ''h'')]]]] \<and>
   extractMainContent plainBrowser (Some hiddenAncestorPage) =
     Inr (''<p>'' @ replicate 120 CHR ''h'' @ ''</p>'')"
  by code_simp

text \<open>
  C5 (amended). The document is cleaned of the extractor's own selectors of unwanted
  elements before the region is selected in it, so no element of the cleaned document
  matches one of them: neither the region's root, nor an element above it, nor an
  element of the region. And no element below the root of the region is hidden (an
  inline style containing \<open>display: none\<close> or \<open>visibility: hidden\<close>, or the \<open>hidden\<close>
  attribute). So no text of the region lies inside an element of the document that
  matches the extractor's list, nor inside a hidden element below the region's root.
  Nothing is said here of a region whose root, or an element above it, is hidden.
\<close>

theorem region_excludes_code_noise:
  assumes "contentRegion br body = Inr region"
  shows "\<not> matches unwantedSelectors region \<and>
         (\<forall>n \<in> set (descendants region). \<not> matches (unwantedSelectors @ hiddenSelectors) n) \<and>
         (\<forall>n \<in> set (descendants (removeUnwanted (Element ''div'' [] [body]))).
            \<not> matches unwantedSelectors n) \<and>
         (selectMain (removeUnwanted (Element ''div'' [] [body])) =
            removeUnwanted (Element ''div'' [] [body]) \<or>
          selectMain (removeUnwanted (Element ''div'' [] [body])) \<in>
            set (descendants (removeUnwanted (Element ''div'' [] [body])))) \<and>
         (\<exists>links. region =
            withChildren
              (removeHidden (removeEmpty (selectMain (removeUnwanted (Element ''div'' [] [body])))))
              links)"
proof -
  let ?temp = "removeUnwanted (Element ''div'' [] [body])"
  let ?main = "selectMain ?temp"
  let ?clean = "removeHidden (removeEmpty ?main)"
  obtain links where links: "cleanLinksIn br ?clean = Inr links"
    and region: "region = withChildren ?clean links"
    using assms by (auto simp: contentRegion_def cleanedContent_def Let_def split: sum.splits)
  have temp_root: "\<not> matches unwantedSelectors ?temp"
    by (simp add: removeUnwanted_def fold_prune_root) (simp add: unwantedSelectors_def)
  have main_root: "\<not> matches unwantedSelectors ?main"
    using selectMain_cases[of ?temp] temp_root removeUnwanted_clean by auto
  have root: "\<not> matches unwantedSelectors region"
  proof -
    have "matches unwantedSelectors ?clean = matches unwantedSelectors ?main"
      by (simp add: removeHidden_def removeEmpty_def)
    moreover have "matches unwantedSelectors (withChildren ?clean links) = matches unwantedSelectors ?clean"
      by (cases ?clean) simp_all
    ultimately show ?thesis using main_root region by simp
  qed
  have main_clean: "\<forall>n \<in> set (descendants ?main). \<not> matches unwantedSelectors n"
    using selectMain_descendants[of ?temp] removeUnwanted_clean by blast
  have empty_clean: "\<forall>n \<in> set (descendants (removeEmpty ?main)). \<not> matches unwantedSelectors n"
    using prune_keeps_clean[OF main_clean] by (auto simp: removeEmpty_def)
  have clean: "\<not> matches unwantedSelectors n \<and> \<not> matches hiddenSelectors n"
    if "n \<in> set (descendants ?clean)" for n
    using prune_keeps_clean[OF empty_clean, of n "matches hiddenSelectors"]
      prune_removes[of n hiddenSelectors "removeEmpty ?main"] that
    by (auto simp: removeHidden_def)
  have below: "\<not> matches (unwantedSelectors @ hiddenSelectors) n'"
    if "n' \<in> set (descendants region)" for n'
  proof -
    from descendants_cleanLinksIn[OF links that[unfolded region]]
    obtain n where n: "n \<in> set (descendants ?clean)" "cleanLinks br n = Inr n'" by blast
    have "matches (unwantedSelectors @ hiddenSelectors) n' = matches (unwantedSelectors @ hiddenSelectors) n"
      using cleanLinks_matches[OF n(2) noise_selectors_href_free] .
    moreover have "\<not> matches (unwantedSelectors @ hiddenSelectors) n"
      using clean[OF n(1)] by (simp add: matches_append)
    ultimately show ?thesis by simp
  qed
  have document: "\<forall>n \<in> set (descendants ?temp). \<not> matches unwantedSelectors n"
    using removeUnwanted_clean by blast
  show ?thesis
    using root below document selectMain_cases[of ?temp] region by blast
qed

theorem region_excludes_code_noise_witness:
  "contentRegion plainBrowser hiddenPage =
     Inr (Element ''div'' []
            [Element ''body'' [] [Element ''article'' [] [Element ''p'' [] [Text ''Visible content'']]]]) \<and>
   list_all (\<lambda>n. \<not> matches (unwantedSelectors @ hiddenSelectors) n)
     (descendants (Element ''div'' []
            [Element ''body'' [] [Element ''article'' [] [Element ''p'' [] [Text ''Visible content'']]]]))"
proof -
  have r: "contentRegion plainBrowser hiddenPage =
     Inr (Element ''div'' []
            [Element ''body'' [] [Element ''article'' [] [Element ''p'' [] [Text ''Visible content'']]]])"
    by code_simp
  from region_excludes_code_noise[OF r] show ?thesis using r by (simp add: list_all_iff)
qed

text \<open>
  C7 (the code at the boundary). The only match is a \<open>.main-content\<close> container, the
  last selector of the list, beside a paragraph outside it. With 99 characters of text
  the region falls back to the whole cleaned container and with 101 characters the match
  is selected, as the claim says. With exactly 100 characters the match does not exceed
  the threshold, yet it is the region, and the paragraph outside it is lost: the loop
  tests \<open>> 100\<close> and the fallback tests \<open>< 100\<close>.
\<close>

theorem region_at_threshold:
  "contentRegion br (thresholdPage 99) = Inr (Element ''div'' [] [thresholdPage 99]) \<and>
   contentRegion br (thresholdPage 100) =
     Inr (Element ''div'' [(''class'', ''main-content'')] [Text (replicate 100 CHR ''x'')]) \<and>
   contentRegion br (thresholdPage 101) =
     Inr (Element ''div'' [(''class'', ''main-content'')] [Text (replicate 101 CHR ''x'')])"
proof -
  have c: "cleanedContent (thresholdPage 99) = Element ''div'' [] [thresholdPage 99]"
    "cleanedContent (thresholdPage 100) =
       Element ''div'' [(''class'', ''main-content'')] [Text (replicate 100 CHR ''x'')]"
    "cleanedContent (thresholdPage 101) =
       Element ''div'' [(''class'', ''main-content'')] [Text (replicate 101 CHR ''x'')]"
    by code_simp+
  have n: "list_all (\<lambda>n. \<not> matches [Tag ''a''] n) (descendants (cleanedContent (thresholdPage 99)))"
    "list_all (\<lambda>n. \<not> matches [Tag ''a''] n) (descendants (cleanedContent (thresholdPage 100)))"
    "list_all (\<lambda>n. \<not> matches [Tag ''a''] n) (descendants (cleanedContent (thresholdPage 101)))"
    by code_simp+
  show ?thesis
    using contentRegion_no_links[OF n(1), of br] contentRegion_no_links[OF n(2), of br]
      contentRegion_no_links[OF n(3), of br]
    by (simp only: c simp_thms)
qed

text \<open>
  C8. Take a browser in which the address
  \<open>https://example.com?utm_source=test&ref=123\<close> resolves and parses with the two query
  parameters \<open>utm_source\<close> and \<open>ref\<close>, as it does in every browser. Both parameters are on
  the list of parameters to delete, so deleting the listed parameters leaves the same
  address as dropping the whole query, the policy of the older variant of the script:
  the address with no query parameter. For every link with this \<open>href\<close>, whatever its
  other attributes, the callback writes that address back; and for every document,
  every such link in the cleaned content has its counterpart in the extracted region,
  with the same other attributes, the address without parameters as its \<open>href\<close>, and its
  children cleaned in the same way.
\<close>

theorem tracking_parameters_stripped:
  assumes "resolveHref br ''https://example.com?utm_source=test&ref=123'' \<noteq> []"
    and "parseURL br (resolveHref br ''https://example.com?utm_source=test&ref=123'') = Inr u"
    and "searchParams u = [(''utm_source'', ''test''), (''ref'', ''123'')]"
    and "map_of as ''href'' = Some ''https://example.com?utm_source=test&ref=123''"
  shows "searchParams (stripTracking u) = [] \<and>
         stripTracking u = clearSearch u \<and>
         cleanLink br as = Inr (setAttribute ''href'' (serializeURL br (clearSearch u)) as) \<and>
         (\<forall>body cs. Element ''a'' as cs \<in> set (descendants (cleanedContent body)) \<longrightarrow>
            (\<exists>region cs'. contentRegion br body = Inr region \<and>
               traverse (cleanLinks br) cs = Inr cs' \<and>
               Element ''a'' (setAttribute ''href'' (serializeURL br (clearSearch u)) as) cs'
                 \<in> set (descendants region)))"
proof -
  have none: "searchParams (stripTracking u) = []"
    by (simp add: stripTracking_params assms(3) paramsToRemove_def)
  have same: "stripTracking u = clearSearch u"
    by (simp add: stripTracking_eq clearSearch_def assms(3) paramsToRemove_def)
  have link: "cleanLink br as = Inr (setAttribute ''href'' (serializeURL br (clearSearch u)) as)"
    using cleanLink_tracked[OF assms(4) assms(1) assms(2)] same by simp
  have "\<exists>region cs'. contentRegion br body = Inr region \<and>
      traverse (cleanLinks br) cs = Inr cs' \<and>
      Element ''a'' (setAttribute ''href'' (serializeURL br (clearSearch u)) as) cs'
        \<in> set (descendants region)"
    if el: "Element ''a'' as cs \<in> set (descendants (cleanedContent body))" for body cs
  proof -
    obtain region where region: "contentRegion br body = Inr region"
      using contentRegion_total by blast
    then obtain links where links: "cleanLinksIn br (cleanedContent body) = Inr links"
      and r: "region = withChildren (cleanedContent body) links"
      by (auto simp: contentRegion_def Let_def split: sum.splits)
    from cleanLinksIn_image[OF links el]
    obtain n' where n': "n' \<in> set (descendants (withChildren (cleanedContent body) links))"
      "cleanLinks br (Element ''a'' as cs) = Inr n'" by blast
    from n'(2) link obtain cs' where "traverse (cleanLinks br) cs = Inr cs'"
      "n' = Element ''a'' (setAttribute ''href'' (serializeURL br (clearSearch u)) as) cs'"
      by (auto split: sum.splits)
    then show ?thesis using region r n'(1) by auto
  qed
  then show ?thesis using none same link by blast
qed

theorem tracking_parameters_stripped_witness:
  "resolveHref plainBrowser ''https://example.com?utm_source=test&ref=123'' =
     ''https://example.com/?utm_source=test&ref=123'' \<and>
   parseURL plainBrowser ''https://example.com/?utm_source=test&ref=123'' =
     Inr \<lparr>base = ''https://example.com/'',
          searchParams = [(''utm_source'', ''test''), (''ref'', ''123'')],
          fragment = None\<rparr> \<and>
   cleanLink plainBrowser
     [(''class'', ''more''), (''href'', ''https://example.com?utm_source=test&ref=123'')] =
     Inr [(''class'', ''more''), (''href'', ''https://example.com/'')] \<and>
   contentRegion plainBrowser linkPage =
     Inr (Element ''div'' []
            [Element ''body'' []
               [Element ''article'' []
                  [Element ''a'' [(''href'', ''https://example.com/'')] [Text ''Link'']]]]) \<and>
   extractMainContent plainBrowser (Some linkPage) =
     Inr (''<body><article><a href='' @ [CHR 0x22] @ ''https://example.com/'' @ [CHR 0x22]
          @ ''>Link</a></article></body>'')"
proof -
  let ?u = "\<lparr>base = ''https://example.com/'',
             searchParams = [(''utm_source'', ''test''), (''ref'', ''123'')],
             fragment = None\<rparr>"
  have resolved: "resolveHref plainBrowser ''https://example.com?utm_source=test&ref=123'' =
      ''https://example.com/?utm_source=test&ref=123''"
    by code_simp
  have parsed: "parseURL plainBrowser ''https://example.com/?utm_source=test&ref=123'' = Inr ?u"
    by code_simp
  have a: "resolveHref plainBrowser ''https://example.com?utm_source=test&ref=123'' \<noteq> []"
    by (simp add: resolved)
  have b: "parseURL plainBrowser (resolveHref plainBrowser ''https://example.com?utm_source=test&ref=123'') =
      Inr ?u"
    by (simp only: resolved parsed)
  have c: "searchParams ?u = [(''utm_source'', ''test''), (''ref'', ''123'')]" by simp
  have d: "map_of [(''class'', ''more''), (''href'', ''https://example.com?utm_source=test&ref=123'')]
      ''href'' = Some ''https://example.com?utm_source=test&ref=123''"
    by simp
  have written: "serializeURL plainBrowser (clearSearch ?u) = ''https://example.com/''"
    by code_simp
  have page: "contentRegion plainBrowser linkPage =
     Inr (Element ''div'' []
            [Element ''body'' []
               [Element ''article'' []
                  [Element ''a'' [(''href'', ''https://example.com/'')] [Text ''Link'']]]])"
    "extractMainContent plainBrowser (Some linkPage) =
     Inr (''<body><article><a href='' @ [CHR 0x22] @ ''https://example.com/'' @ [CHR 0x22]
          @ ''>Link</a></article></body>'')"
    by code_simp+
  from tracking_parameters_stripped[OF a b c d]
  have "cleanLink plainBrowser
      [(''class'', ''more''), (''href'', ''https://example.com?utm_source=test&ref=123'')] =
      Inr (setAttribute ''href'' (serializeURL plainBrowser (clearSearch ?u))
        [(''class'', ''more''), (''href'', ''https://example.com?utm_source=test&ref=123'')])"
    by blast
  then have "cleanLink plainBrowser
      [(''class'', ''more''), (''href'', ''https://example.com?utm_source=test&ref=123'')] =
      Inr [(''class'', ''more''), (''href'', ''https://example.com/'')]"
    by (simp only: written) simp
  then show ?thesis using resolved parsed page by blast
qed




section \<open>Properties of the partitioner\<close>

lemma collectNodes_filter:
  "collectNodes ahead textNodes = textNodes @ filter (\<lambda>(p, n). acceptNode n) ahead"
proof (induction ahead textNodes rule: collectNodes.induct)
  case (1 ahead textNodes)
  let ?rej = "\<lambda>(p, n). \<not> acceptNode n"
  show ?case
  proof (cases "dropWhile ?rej ahead")
    case Nil
    have nn: "nextNode ahead = (None, [])" unfolding nextNode_def Nil by simp
    from Nil have "\<forall>x \<in> set ahead. ?rej x" by simp
    then have "filter (\<lambda>(p, n). acceptNode n) ahead = []"
      by (auto simp: filter_empty_conv)
    then show ?thesis
      by (subst collectNodes.simps) (simp add: nn)
  next
    case (Cons found rest)
    have nn: "nextNode ahead = (Some found, rest)" unfolding nextNode_def Cons by simp
    have split: "ahead = takeWhile ?rej ahead @ found # rest"
      using Cons takeWhile_dropWhile_id[of ?rej ahead] by simp
    have acc: "\<not> ?rej found"
      using hd_dropWhile[of ?rej ahead] Cons by simp
    have "filter (\<lambda>(p, n). acceptNode n) (takeWhile ?rej ahead) = []"
      by (auto simp: filter_empty_conv dest: set_takeWhileD)
    then have "filter (\<lambda>(p, n). acceptNode n) ahead = found # filter (\<lambda>(p, n). acceptNode n) rest"
      using acc by (subst split) (auto simp del: takeWhile_dropWhile_id)
    moreover have "collectNodes rest (textNodes @ [found]) =
        (textNodes @ [found]) @ filter (\<lambda>(p, n). acceptNode n) rest"
      using 1[OF nn[symmetric] refl] by simp
    ultimately show ?thesis using nn
      by (subst collectNodes.simps) simp
  qed
qed

lemma walk_paths:
  "(q, n) \<in> set (walk p r) \<longleftrightarrow> (\<exists>q'. q = p @ q' \<and> q' \<noteq> [] \<and> nodeAt r q' = Some n)"
  "(q, n) \<in> set (walkList p i cs) \<longleftrightarrow>
     (\<exists>j q'. q = p @ (i + j) # q' \<and> j < length cs \<and> nodeAt (cs ! j) q' = Some n)"
proof (induction p r and p i cs arbitrary: q n and q n rule: walk_walkList.induct)
  case (1 p s)
  show ?case by (auto simp: neq_Nil_conv)
next
  case (2 p t as cs)
  show ?case
  proof
    assume "(q, n) \<in> set (walk p (Element t as cs))"
    then obtain j q' where "q = p @ (0 + j) # q'" "j < length cs" "nodeAt (cs ! j) q' = Some n"
      using 2 by auto
    then show "\<exists>q'. q = p @ q' \<and> q' \<noteq> [] \<and> nodeAt (Element t as cs) q' = Some n"
      by (intro exI[of _ "j # q'"]) simp
  next
    assume "\<exists>q'. q = p @ q' \<and> q' \<noteq> [] \<and> nodeAt (Element t as cs) q' = Some n"
    then obtain j q' where "q = p @ j # q'" "nodeAt (Element t as cs) (j # q') = Some n"
      by (auto simp: neq_Nil_conv)
    then have "q = p @ (0 + j) # q' \<and> j < length cs \<and> nodeAt (cs ! j) q' = Some n"
      by (auto split: if_splits)
    then show "(q, n) \<in> set (walk p (Element t as cs))" using 2 by auto
  qed
next
  case (3 p i)
  show ?case by simp
next
  case (4 p i c cs)
  show ?case
  proof
    assume "(q, n) \<in> set (walkList p i (c # cs))"
    then consider "q = p @ [i]" "n = c"
      | "(q, n) \<in> set (walk (p @ [i]) c)"
      | "(q, n) \<in> set (walkList p (Suc i) cs)" by auto
    then show "\<exists>j q'. q = p @ (i + j) # q' \<and> j < length (c # cs) \<and> nodeAt ((c # cs) ! j) q' = Some n"
    proof cases
      case 1
      then show ?thesis by (intro exI[of _ 0] exI[of _ "[]"]) simp
    next
      case 2
      then obtain q' where "q = (p @ [i]) @ q'" "q' \<noteq> []" "nodeAt c q' = Some n"
        using 4(1) by blast
      then show ?thesis by (intro exI[of _ 0] exI[of _ q']) simp
    next
      case 3
      then obtain j q' where "q = p @ (Suc i + j) # q'" "j < length cs" "nodeAt (cs ! j) q' = Some n"
        using 4(2) by blast
      then show ?thesis by (intro exI[of _ "Suc j"] exI[of _ q']) simp
    qed
  next
    assume "\<exists>j q'. q = p @ (i + j) # q' \<and> j < length (c # cs) \<and> nodeAt ((c # cs) ! j) q' = Some n"
    then obtain j q' where j: "q = p @ (i + j) # q'" "j < length (c # cs)"
      "nodeAt ((c # cs) ! j) q' = Some n" by blast
    show "(q, n) \<in> set (walkList p i (c # cs))"
    proof (cases j)
      case 0
      show ?thesis
      proof (cases q')
        case Nil
        then show ?thesis using j 0 by simp
      next
        case (Cons a list)
        then have "(q, n) \<in> set (walk (p @ [i]) c)"
          using 4(1)[of q n] j 0 by auto
        then show ?thesis by simp
      qed
    next
      case (Suc j')
      then have "(q, n) \<in> set (walkList p (Suc i) cs)"
        using 4(2)[of q n] j by auto
      then show ?thesis by simp
    qed
  qed
qed

lemma before_extend: "q' \<noteq> [] \<Longrightarrow> before p (p @ q')"
  unfolding before_def by (rule lexord_append_rightI) (auto simp: neq_Nil_conv)

lemma before_sibling: "i < j \<Longrightarrow> before (p @ i # q) (p @ j # q')"
  unfolding before_def by (rule lexord_append_leftI) simp

lemma walk_sorted:
  "sorted_wrt before (map fst (walk p r))"
  "sorted_wrt before (map fst (walkList p i cs))"
proof (induction p r and p i cs rule: walk_walkList.induct)
  case (1 p s)
  show ?case by simp
next
  case (2 p t as cs)
  then show ?case by simp
next
  case (3 p i)
  show ?case by simp
next
  case (4 p i c cs)
  have inner: "before (p @ [i]) q" if "q \<in> fst ` set (walk (p @ [i]) c)" for q
  proof -
    from that obtain n where "(q, n) \<in> set (walk (p @ [i]) c)" by auto
    then obtain q' where "q = (p @ [i]) @ q'" "q' \<noteq> []" using walk_paths(1) by blast
    then show ?thesis using before_extend[of q' "p @ [i]"] by simp
  qed
  have later: "before (p @ i # q0) q" if "q \<in> fst ` set (walkList p (Suc i) cs)" for q q0
  proof -
    from that obtain n where "(q, n) \<in> set (walkList p (Suc i) cs)" by auto
    then obtain j q' where "q = p @ (Suc i + j) # q'" using walk_paths(2) by blast
    then show ?thesis using before_sibling[of i "Suc i + j" p q0 q'] by simp
  qed
  have cross: "before a b"
    if "a \<in> fst ` set (walk (p @ [i]) c)" "b \<in> fst ` set (walkList p (Suc i) cs)" for a b
  proof -
    from that(1) obtain n where "(a, n) \<in> set (walk (p @ [i]) c)" by auto
    then obtain q' where "a = (p @ [i]) @ q'" using walk_paths(1) by blast
    then have "a = p @ i # q'" by simp
    then show ?thesis using later[OF that(2), of q'] by simp
  qed
  show ?case
    using 4 inner later[of _ "[]"] cross
    by (simp add: sorted_wrt_append) blast
qed

lemma sorted_wrt_filter_map:
  "sorted_wrt R (map f xs) \<Longrightarrow> sorted_wrt R (map f (filter P xs))"
  by (induction xs) auto

lemma textNodesOf_filter:
  "textNodesOf region = filter (\<lambda>(p, n). acceptNode n) (walk [] region)"
  by (simp add: textNodesOf_def collectNodes_filter)

lemma acceptNode_iff:
  "acceptNode n \<longleftrightarrow> (\<exists>s. n = Text s \<and> trim s \<noteq> [] \<and> 1 < length (trim s))"
  by (cases n) (auto simp: Let_def)

section \<open>Claims about the partitioner\<close>

text \<open>
  C6. The loop over the walker returns exactly the text nodes below the region whose
  trimmed text has more than one character (so none with empty or one-character trimmed
  text), each with its position, in the order of the walk; their positions are in
  document order. The walker only reads the tree, so a second walk over the same region
  returns the same sequence.
\<close>

theorem partition_document_order:
  "textNodesOf region = filter (\<lambda>(p, n). acceptNode n) (walk [] region) \<and>
   sorted_wrt before (map fst (textNodesOf region)) \<and>
   (\<forall>p n. (p, n) \<in> set (textNodesOf region) \<longleftrightarrow>
      (p \<noteq> [] \<and> nodeAt region p = Some n \<and>
       (\<exists>s. n = Text s \<and> trim s \<noteq> [] \<and> 1 < length (trim s)))) \<and>
   collectNodes (walk [] region) [] = textNodesOf region"
proof -
  have "sorted_wrt before (map fst (textNodesOf region))"
    unfolding textNodesOf_filter using walk_sorted(1)[of "[]" region]
    by (rule sorted_wrt_filter_map)
  moreover have "(p, n) \<in> set (textNodesOf region) \<longleftrightarrow>
      (p \<noteq> [] \<and> nodeAt region p = Some n \<and>
       (\<exists>s. n = Text s \<and> trim s \<noteq> [] \<and> 1 < length (trim s)))" for p n
    unfolding textNodesOf_filter using walk_paths(1)[of p n "[]" region]
    by (auto simp: acceptNode_iff)
  moreover have "collectNodes (walk [] region) [] = textNodesOf region"
    by (simp add: textNodesOf_def)
  ultimately show ?thesis using textNodesOf_filter[of region] by blast
qed

theorem partition_document_order_witness:
  "textNodesOf readerFixture =
     [([0, 0], Text ''Hello ''), ([0, 1, 0], Text ''world''), ([2, 0], Text '' Bye '')] \<and>
   sorted_wrt before [[0, 0], [0, 1, 0], [2, 0]] \<and>
   nodeAt readerFixture [0, 2] = Some (Text ''.'') \<and>
   \<not> List.member (map fst (textNodesOf readerFixture)) [0, 2]"
proof -
  have t: "textNodesOf readerFixture =
     [([0, 0], Text ''Hello ''), ([0, 1, 0], Text ''world''), ([2, 0], Text '' Bye '')]"
    by code_simp
  have "sorted_wrt before (map fst (textNodesOf readerFixture))"
    using partition_document_order[of readerFixture] by blast
  then have s: "sorted_wrt before [[0, 0], [0, 1, 0], [2, 0]]"
    unfolding t by simp
  have n: "nodeAt readerFixture [0, 2] = Some (Text ''.'')" by code_simp
  have m: "\<not> List.member (map fst (textNodesOf readerFixture)) [0, 2]"
    unfolding t by code_simp
  show ?thesis using t s n m by blast
qed

end
